theory Spec2Isabelle
  imports Complex_Main "HOL-Library.Char_ord"
begin

section \<open>Positions, sizes and sentinels\<close>

text \<open>
  \<^verbatim>\<open>Position\<close> and \<^verbatim>\<open>Size\<close> are plain structs of two \<^verbatim>\<open>int\<close> fields: sheet.cpp
  compares \<^verbatim>\<open>pos.row\<close> with \<^verbatim>\<open>static_cast<int>(cells_.size())\<close>. Field names lose the
  trailing underscore of the C++ members throughout, since an Isabelle name cannot end in one.
\<close>

record Position =
  row :: int
  col :: int

record Size =
  rows :: int
  cols :: int

text \<open>
  Modelled from the spec: common.h is not among the sources. The spec gives the validity
  of a position as \<open>0 \<le> row < MAX_ROWS \<and> 0 \<le> col < MAX_COLS\<close> with the typical bound
  16384, the formula sign as \<^verbatim>\<open>=\<close> and the escape sign as the apostrophe.
\<close>

definition MAX_ROWS :: int where
  "MAX_ROWS = 16384"

definition MAX_COLS :: int where
  "MAX_COLS = 16384"

definition IsValid :: "Position \<Rightarrow> bool" where
  "IsValid p \<longleftrightarrow> 0 \<le> row p \<and> row p < MAX_ROWS \<and> 0 \<le> col p \<and> col p < MAX_COLS"

definition FORMULA_SIGN :: char where
  "FORMULA_SIGN = CHR ''=''"

definition ESCAPE_SIGN :: char where
  "ESCAPE_SIGN = CHR 0x27"

section \<open>Values and the formula interface\<close>

text \<open>
  Modelled from the spec: the error categories of \<^verbatim>\<open>FormulaError\<close> live in common.h; the
  core only carries them around.
\<close>

datatype FormulaError = ErrRef | ErrValue | ErrArithmetic

text \<open>
  \<^verbatim>\<open>CellInterface::Value\<close> is a variant of string, double and FormulaError, and
  \<^verbatim>\<open>FormulaInterface::Value\<close> one of double and FormulaError. The sources under study never
  compute with a double: they copy it and build the constant 0.0, so a real number stands
  for it.
\<close>

datatype CellValue = VString string | VDouble real | VError FormulaError

datatype FormulaValue = FDouble real | FError FormulaError

text \<open>
  \<^verbatim>\<open>FormulaAST\<close> (FormulaAST.h) is an external collaborator: formula.cpp calls its
  \<^verbatim>\<open>GetCells\<close>, \<^verbatim>\<open>PrintFormula\<close> and \<^verbatim>\<open>Execute\<close> and nothing else. An AST is
  therefore represented by what these three const methods answer. \<^verbatim>\<open>Execute\<close> receives a
  callback and may call it any number of times before it answers (a double, or a thrown
  FormulaError): that is a tree whose inner nodes ask for the value at a position and
  continue with the answer. The parser \<^verbatim>\<open>ParseFormulaAST\<close> is a parameter \<open>parse\<close> of the
  operations below; \<open>None\<close> stands for the exception it throws on ill-formed input.
\<close>

datatype Interaction = Done FormulaValue | Ask Position "CellValue \<Rightarrow> Interaction"

record FormulaAST =
  GetCells :: "Position list"
  PrintFormula :: string
  Execute :: Interaction

section \<open>Cells (cell.cpp, formula.cpp)\<close>

datatype Impl = EmptyImpl | TextImpl string | FormulaImpl FormulaAST

record Cell =
  impl :: Impl
  cache :: "CellValue option"

text \<open>The constructor \<^verbatim>\<open>Cell::Cell\<close>: an EmptyImpl and no cached value.\<close>

definition new_Cell :: Cell where
  "new_Cell = \<lparr>impl = EmptyImpl, cache = None\<rparr>"

text \<open>\<^verbatim>\<open>Formula::GetReferencedCells\<close>: the AST's cells with \<^verbatim>\<open>std::unique\<close> applied.\<close>

definition Formula_GetReferencedCells :: "FormulaAST \<Rightarrow> Position list" where
  "Formula_GetReferencedCells a = remdups_adj (GetCells a)"

fun Impl_GetText :: "Impl \<Rightarrow> string" where
  "Impl_GetText EmptyImpl = ''''"
| "Impl_GetText (TextImpl text) = text"
| "Impl_GetText (FormulaImpl a) = CHR ''='' # PrintFormula a"

fun Impl_GetReferencedCells :: "Impl \<Rightarrow> Position list" where
  "Impl_GetReferencedCells (FormulaImpl a) = Formula_GetReferencedCells a"
| "Impl_GetReferencedCells _ = []"

text \<open>\<^verbatim>\<open>TextImpl::GetValue\<close>; \<^verbatim>\<open>text_.substr(1)\<close> is the tail.\<close>

definition TextImpl_GetValue :: "string \<Rightarrow> CellValue" where
  "TextImpl_GetValue text =
     (if text \<noteq> [] \<and> hd text = ESCAPE_SIGN then VString (tl text) else VString text)"

text \<open>
  \<^verbatim>\<open>Cell::Set\<close>. \<open>None\<close> is the parser's exception leaving the constructor of FormulaImpl.
  The cache is not touched.
\<close>

definition Cell_Set :: "(string \<Rightarrow> FormulaAST option) \<Rightarrow> string \<Rightarrow> Cell \<Rightarrow> Cell option" where
  "Cell_Set parse text c =
     (if text = [] then Some (c\<lparr>impl := EmptyImpl\<rparr>)
      else if hd text = FORMULA_SIGN \<and> length text > 1 then
        (case parse (tl text) of
           None \<Rightarrow> None
         | Some a \<Rightarrow> Some (c\<lparr>impl := FormulaImpl a\<rparr>))
      else Some (c\<lparr>impl := TextImpl text\<rparr>))"

definition Cell_GetText :: "Cell \<Rightarrow> string" where
  "Cell_GetText c = Impl_GetText (impl c)"

definition Cell_GetReferencedCells :: "Cell \<Rightarrow> Position list" where
  "Cell_GetReferencedCells c = Impl_GetReferencedCells (impl c)"

definition Cell_ResetCache :: "Cell \<Rightarrow> Cell" where
  "Cell_ResetCache c = c\<lparr>cache := None\<rparr>"

section \<open>The dependency graph (sheet.cpp)\<close>

text \<open>
  A \<^verbatim>\<open>Node*\<close> always points into \<^verbatim>\<open>nodes_\<close>, whose elements never move, so a pointer is
  modelled by the key of the node it points to. A \<^verbatim>\<open>std::unordered_set<Node*>\<close> is a list
  without duplicates; its iteration order is unspecified in C++, and the list order stands
  for whichever order the implementation has. \<^verbatim>\<open>assert\<close> failures, reads outside a vector,
  null dereferences and recursion that does not end are the fatal outcomes.
\<close>

datatype fatal = AssertionFailed | OutOfRange | NullDereference | DanglingPointer | FuelExhausted

record Node =
  cell :: Position
  forward :: "Position list"
  backward :: "Position list"

type_synonym DependencyGraph = "Position \<Rightarrow> Node option"

definition uset_insert :: "'a \<Rightarrow> 'a list \<Rightarrow> 'a list" where
  "uset_insert x xs = (if x \<in> set xs then xs else xs @ [x])"

definition uset_erase :: "'a \<Rightarrow> 'a list \<Rightarrow> 'a list" where
  "uset_erase x xs = removeAll x xs"

definition Contains :: "DependencyGraph \<Rightarrow> Position \<Rightarrow> bool" where
  "Contains g p \<longleftrightarrow> g p \<noteq> None"

definition AddCell :: "DependencyGraph \<Rightarrow> Position \<Rightarrow> DependencyGraph" where
  "AddCell g p =
     (if \<not> Contains g p then g(p \<mapsto> \<lparr>cell = p, forward = [], backward = []\<rparr>) else g)"

definition AddDependency :: "DependencyGraph \<Rightarrow> Position \<Rightarrow> Position \<Rightarrow> fatal + DependencyGraph" where
  "AddDependency g from to =
     (if g from = None \<or> g to = None then Inl AssertionFailed
      else
        let nf = the (g from);
            g1 = g(from \<mapsto> nf\<lparr>forward := uset_insert to (forward nf)\<rparr>);
            nt = the (g1 to)
        in Inr (g1(to \<mapsto> nt\<lparr>backward := uset_insert from (backward nt)\<rparr>)))"

definition RemoveDependency :: "DependencyGraph \<Rightarrow> Position \<Rightarrow> Position \<Rightarrow> fatal + DependencyGraph" where
  "RemoveDependency g from to =
     (if g from = None \<or> g to = None then Inl AssertionFailed
      else
        let nf = the (g from);
            g1 = g(from \<mapsto> nf\<lparr>forward := uset_erase to (forward nf)\<rparr>);
            nt = the (g1 to)
        in Inr (g1(to \<mapsto> nt\<lparr>backward := uset_erase from (backward nt)\<rparr>)))"

text \<open>
  The two loops of \<^verbatim>\<open>RemoveCell\<close>. Each dereferences the pointers stored in the node
  being removed; a pointer to a node that is no longer in the map would be dangling.
\<close>

fun erase_from_backward :: "Position \<Rightarrow> Position list \<Rightarrow> DependencyGraph \<Rightarrow> fatal + DependencyGraph" where
  "erase_from_backward p [] g = Inr g"
| "erase_from_backward p (q # qs) g =
     (case g q of
        None \<Rightarrow> Inl DanglingPointer
      | Some n \<Rightarrow> erase_from_backward p qs (g(q \<mapsto> n\<lparr>backward := uset_erase p (backward n)\<rparr>)))"

fun erase_from_forward :: "Position \<Rightarrow> Position list \<Rightarrow> DependencyGraph \<Rightarrow> fatal + DependencyGraph" where
  "erase_from_forward p [] g = Inr g"
| "erase_from_forward p (q # qs) g =
     (case g q of
        None \<Rightarrow> Inl DanglingPointer
      | Some n \<Rightarrow> erase_from_forward p qs (g(q \<mapsto> n\<lparr>forward := uset_erase p (forward n)\<rparr>)))"

definition RemoveCell :: "DependencyGraph \<Rightarrow> Position \<Rightarrow> fatal + DependencyGraph" where
  "RemoveCell g p =
     (case g p of
        None \<Rightarrow> Inr g
      | Some n \<Rightarrow>
          (case erase_from_backward p (forward n) g of
             Inl e \<Rightarrow> Inl e
           | Inr g1 \<Rightarrow>
               (case erase_from_forward p (backward (the (g1 p))) g1 of
                  Inl e \<Rightarrow> Inl e
                | Inr g2 \<Rightarrow> Inr (g2(p := None)))))"

text \<open>
  \<^verbatim>\<open>CheckCyclicDependencies\<close>: the recursive lambda \<^verbatim>\<open>check_node\<close> and its loop over
  \<^verbatim>\<open>forward_\<close>, threading the set \<^verbatim>\<open>verified_nodes\<close>. The recursion of the source is
  unbounded, so the model takes fuel: one unit per nested call, and the outcome
  \<open>FuelExhausted\<close> when it runs out, so that a probe that never ends has that outcome for
  every amount of fuel. The answer \<open>True\<close> means that no cycle was found.
\<close>

fun check_node :: "nat \<Rightarrow> DependencyGraph \<Rightarrow> Position \<Rightarrow> Position \<Rightarrow> Position list
      \<Rightarrow> fatal + (bool \<times> Position list)"
and check_loop :: "nat \<Rightarrow> DependencyGraph \<Rightarrow> Position \<Rightarrow> Position list \<Rightarrow> Position list
      \<Rightarrow> fatal + (bool \<times> Position list)" where
  "check_node 0 g start current verified = Inl FuelExhausted"
| "check_node (Suc fuel) g start current verified =
     (case g current of
        None \<Rightarrow> Inl DanglingPointer
      | Some n \<Rightarrow> check_loop fuel g start (forward n) verified)"
| "check_loop fuel g start [] verified = Inr (True, verified)"
| "check_loop fuel g start (next_node # rest) verified =
     (if next_node \<in> set verified then check_loop fuel g start rest verified
      else if next_node = start then Inr (False, verified)
      else
        (case check_node fuel g start next_node verified of
           Inl e \<Rightarrow> Inl e
         | Inr (ok, verified') \<Rightarrow>
             if \<not> ok then Inr (False, verified')
             else check_loop fuel g start rest (uset_insert next_node verified')))"

definition CheckCyclicDependencies :: "nat \<Rightarrow> DependencyGraph \<Rightarrow> Position \<Rightarrow> fatal + bool" where
  "CheckCyclicDependencies fuel g c =
     (if g c = None then Inl AssertionFailed
      else
        (case check_node fuel g c c [] of
           Inl e \<Rightarrow> Inl e
         | Inr (ok, _) \<Rightarrow> Inr ok))"

section \<open>The sheet (sheet.cpp)\<close>

record Sheet =
  graph :: DependencyGraph
  cells :: "Cell option list list"
  printable_size :: Size

text \<open>
  \<^verbatim>\<open>Sheet::Sheet\<close>: an empty graph and an empty grid. Modelled from the spec: \<^verbatim>\<open>Size\<close> is
  declared in common.h, and the spec gives (0, 0) for a sheet without cells.
\<close>

definition new_Sheet :: Sheet where
  "new_Sheet = \<lparr>graph = Map.empty, cells = [], printable_size = \<lparr>rows = 0, cols = 0\<rparr>\<rparr>"

text \<open>
  An operation of the sheet returns, or throws one of its exceptions (the sheet can be used
  afterwards, so the state at the throw is kept), or ends the program.
\<close>

datatype exn = InvalidPositionException | CircularDependencyException | FormulaException

datatype 'a outcome = Returned 'a | Thrown exn Sheet | Crashed fatal

text \<open>\<^verbatim>\<open>operator[]\<close> of a vector with an \<^verbatim>\<open>int\<close> index: outside the vector there is no element.\<close>

definition vec_at :: "'a list \<Rightarrow> int \<Rightarrow> 'a option" where
  "vec_at xs i = (if 0 \<le> i \<and> i < int (length xs) then Some (xs ! nat i) else None)"

definition vec_resize :: "nat \<Rightarrow> 'a \<Rightarrow> 'a list \<Rightarrow> 'a list" where
  "vec_resize n d xs = take n xs @ replicate (n - length xs) d"

definition GetConcreteCell :: "Sheet \<Rightarrow> Position \<Rightarrow> fatal + Cell option" where
  "GetConcreteCell s pos =
     (if row pos < int (length (cells s)) then
        (case vec_at (cells s) (row pos) of
           None \<Rightarrow> Inl OutOfRange
         | Some r \<Rightarrow>
             if col pos < int (length r) then
               (case vec_at r (col pos) of
                  None \<Rightarrow> Inl OutOfRange
                | Some c \<Rightarrow> Inr c)
             else Inr None)
      else Inr None)"

definition PlaceCell :: "Sheet \<Rightarrow> Position \<Rightarrow> Cell \<Rightarrow> fatal + Sheet" where
  "PlaceCell s pos c =
     (let cs = (if row pos \<ge> int (length (cells s))
                then vec_resize (nat (row pos + 1)) [] (cells s) else cells s)
      in case vec_at cs (row pos) of
           None \<Rightarrow> Inl OutOfRange
         | Some r \<Rightarrow>
             let r1 = (if col pos \<ge> int (length r)
                       then vec_resize (nat (col pos + 1)) None r else r)
             in if 0 \<le> col pos \<and> col pos < int (length r1) then
                  Inr (s\<lparr>cells := cs[nat (row pos) := r1[nat (col pos) := Some c]],
                         printable_size :=
                           \<lparr>rows = max (rows (printable_size s)) (row pos + 1),
                            cols = max (cols (printable_size s)) (col pos + 1)\<rparr>\<rparr>)
                else Inl OutOfRange)"

text \<open>
  The rescan of \<^verbatim>\<open>ClearCell\<close>: \<^verbatim>\<open>for (int c = cols; c >= 0; --c)\<close> inside
  \<^verbatim>\<open>for (int r = rows; r >= 0; --r)\<close>. The column test guards its read with
  \<^verbatim>\<open>c < row.size()\<close>; the row read \<^verbatim>\<open>cells_[r]\<close> has no guard.
\<close>

function scan_cols :: "Cell option list \<Rightarrow> int \<Rightarrow> int option" where
  "scan_cols r c =
     (if c < 0 then None
      else if c < int (length r) \<and> r ! nat c \<noteq> None then Some c
      else scan_cols r (c - 1))"
  by pat_completeness auto
termination
  by (relation "measure (\<lambda>(r, c). nat (c + 1))") auto

function scan_rows :: "Cell option list list \<Rightarrow> int \<Rightarrow> int \<Rightarrow> fatal + Size option" where
  "scan_rows cs r ncols =
     (if r < 0 then Inr None
      else
        (case vec_at cs r of
           None \<Rightarrow> Inl OutOfRange
         | Some rw \<Rightarrow>
             (case scan_cols rw ncols of
                Some c \<Rightarrow> Inr (Some \<lparr>rows = r + 1, cols = c + 1\<rparr>)
              | None \<Rightarrow> scan_rows cs (r - 1) ncols)))"
  by pat_completeness auto
termination
  by (relation "measure (\<lambda>(cs, r, ncols). nat (r + 1))") auto

definition ClearCell :: "Sheet \<Rightarrow> Position \<Rightarrow> Sheet outcome" where
  "ClearCell s pos =
     (if \<not> IsValid pos then Thrown InvalidPositionException s
      else if row pos < int (length (cells s)) then
        (let r = cells s ! nat (row pos) in
         if col pos < int (length r) then
           (let s1 = s\<lparr>cells := (cells s)[nat (row pos) := r[nat (col pos) := None]]\<rparr> in
            if row pos + 1 = rows (printable_size s) \<or> col pos + 1 = cols (printable_size s) then
              (case scan_rows (cells s1) (rows (printable_size s)) (cols (printable_size s)) of
                 Inl e \<Rightarrow> Crashed e
               | Inr (Some sz) \<Rightarrow> Returned (s1\<lparr>printable_size := sz\<rparr>)
               | Inr None \<Rightarrow> Returned (s1\<lparr>printable_size := \<lparr>rows = 0, cols = 0\<rparr>\<rparr>))
            else Returned s1)
         else Returned s)
      else Returned s)"

definition GetPrintableSize :: "Sheet \<Rightarrow> Size" where
  "GetPrintableSize s = printable_size s"

text \<open>
  \<^verbatim>\<open>Sheet::GetCell\<close>: validate, then the slot. The pointer it returns is null for an absent
  slot.
\<close>

definition GetCell :: "Sheet \<Rightarrow> Position \<Rightarrow> Cell option outcome" where
  "GetCell s pos =
     (if \<not> IsValid pos then Thrown InvalidPositionException s
      else
        (case GetConcreteCell s pos of
           Inl e \<Rightarrow> Crashed e
         | Inr c \<Rightarrow> Returned c))"

text \<open>A member function that changes the cell object stored at a position.\<close>

definition update_cell :: "Sheet \<Rightarrow> Position \<Rightarrow> (Cell \<Rightarrow> Cell) \<Rightarrow> Sheet" where
  "update_cell s p f =
     s\<lparr>cells := (cells s)[nat (row p) :=
         (cells s ! nat (row p))[nat (col p) := map_option f (cells s ! nat (row p) ! nat (col p))]]\<rparr>"

text \<open>The callback \<^verbatim>\<open>reseter\<close> of \<^verbatim>\<open>SetCell\<close>.\<close>

definition reseter :: "Sheet \<Rightarrow> Position \<Rightarrow> fatal + Sheet" where
  "reseter s p =
     (case GetConcreteCell s p of
        Inl e \<Rightarrow> Inl e
      | Inr None \<Rightarrow> Inl AssertionFailed
      | Inr (Some c) \<Rightarrow> Inr (update_cell s p Cell_ResetCache))"

text \<open>
  \<^verbatim>\<open>DependencyGraph::ResetCache\<close> with that callback: the recursive lambda \<^verbatim>\<open>reset_node\<close>
  and its loop over \<^verbatim>\<open>backward_\<close>. Fuel as in the cycle probe.
\<close>

fun reset_node :: "nat \<Rightarrow> DependencyGraph \<Rightarrow> Sheet \<Rightarrow> Position \<Rightarrow> Position list
      \<Rightarrow> fatal + (Sheet \<times> Position list)"
and reset_loop :: "nat \<Rightarrow> DependencyGraph \<Rightarrow> Sheet \<Rightarrow> Position list \<Rightarrow> Position list
      \<Rightarrow> fatal + (Sheet \<times> Position list)" where
  "reset_node 0 g s current verified = Inl FuelExhausted"
| "reset_node (Suc fuel) g s current verified =
     (case g current of
        None \<Rightarrow> Inl DanglingPointer
      | Some n \<Rightarrow>
          (case reseter s (cell n) of
             Inl e \<Rightarrow> Inl e
           | Inr s1 \<Rightarrow> reset_loop fuel g s1 (backward n) verified))"
| "reset_loop fuel g s [] verified = Inr (s, verified)"
| "reset_loop fuel g s (next_node # rest) verified =
     (if next_node \<in> set verified then reset_loop fuel g s rest verified
      else
        (case reset_node fuel g s next_node verified of
           Inl e \<Rightarrow> Inl e
         | Inr (s1, verified') \<Rightarrow>
             reset_loop fuel g s1 rest (uset_insert next_node verified')))"

definition ResetCache :: "nat \<Rightarrow> Sheet \<Rightarrow> Position \<Rightarrow> fatal + Sheet" where
  "ResetCache fuel s c =
     (if graph s c = None then Inl AssertionFailed
      else
        (case reset_node fuel (graph s) s c [] of
           Inl e \<Rightarrow> Inl e
         | Inr (s1, _) \<Rightarrow> Inr s1))"

text \<open>
  The first loop of \<^verbatim>\<open>SetCell\<close> (lines 145 to 158): for each referenced position, the
  test for a self-reference, then \<^verbatim>\<open>GetCell\<close> (which validates the position), then an
  Empty cell placed on an absent slot and recorded in \<^verbatim>\<open>new_empty_poses\<close>.
\<close>

fun materialize :: "Sheet \<Rightarrow> Position \<Rightarrow> Position list \<Rightarrow> Position list
      \<Rightarrow> (Sheet \<times> Position list) outcome" where
  "materialize s pos [] new_empty_poses = Returned (s, new_empty_poses)"
| "materialize s pos (next # rest) new_empty_poses =
     (if next = pos then Thrown CircularDependencyException s
      else
        (case GetCell s next of
           Thrown e s' \<Rightarrow> Thrown e s'
         | Crashed e \<Rightarrow> Crashed e
         | Returned (Some next_cell) \<Rightarrow> materialize s pos rest new_empty_poses
         | Returned None \<Rightarrow>
             (case PlaceCell s next new_Cell of
                Inl e \<Rightarrow> Crashed e
              | Inr s1 \<Rightarrow> materialize s1 pos rest (new_empty_poses @ [next]))))"

text \<open>The loops over \<^verbatim>\<open>old_poses\<close> and \<^verbatim>\<open>new_poses\<close> that rewire the graph.\<close>

fun remove_dependencies :: "DependencyGraph \<Rightarrow> Position \<Rightarrow> Position list \<Rightarrow> fatal + DependencyGraph" where
  "remove_dependencies g pos [] = Inr g"
| "remove_dependencies g pos (next # rest) =
     (case RemoveDependency g pos next of
        Inl e \<Rightarrow> Inl e
      | Inr g1 \<Rightarrow> remove_dependencies g1 pos rest)"

fun add_dependencies :: "DependencyGraph \<Rightarrow> Position \<Rightarrow> Position list \<Rightarrow> fatal + DependencyGraph" where
  "add_dependencies g pos [] = Inr g"
| "add_dependencies g pos (next # rest) =
     (case AddDependency (AddCell g next) pos next of
        Inl e \<Rightarrow> Inl e
      | Inr g1 \<Rightarrow> add_dependencies g1 pos rest)"

text \<open>The loop of the rollback that clears the cells of \<^verbatim>\<open>new_empty_poses\<close>.\<close>

fun clear_cells :: "Sheet \<Rightarrow> Position list \<Rightarrow> Sheet outcome" where
  "clear_cells s [] = Returned s"
| "clear_cells s (next # rest) =
     (case ClearCell s next of
        Returned s1 \<Rightarrow> clear_cells s1 rest
      | Thrown e s' \<Rightarrow> Thrown e s'
      | Crashed e \<Rightarrow> Crashed e)"

text \<open>
  Lines 160 to 212 of \<^verbatim>\<open>SetCell\<close>: the old dependencies leave the graph, the new ones
  enter it, and for a position that the graph already had, the cycle probe decides between
  the rollback with its exception and the cache reset. The new cell is placed last. The
  local \<^verbatim>\<open>contained\<close> is \<open>in_graph\<close> here.
\<close>

definition old_dependencies :: "Sheet \<Rightarrow> Position \<Rightarrow> bool \<Rightarrow> fatal + Position list" where
  "old_dependencies s pos in_graph =
     (if in_graph then
        (case GetConcreteCell s pos of
           Inl e \<Rightarrow> Inl e
         | Inr None \<Rightarrow> Inl AssertionFailed
         | Inr (Some old_cell) \<Rightarrow> Inr (Cell_GetReferencedCells old_cell))
      else Inr [])"

definition place_new_cell :: "Sheet \<Rightarrow> Position \<Rightarrow> Cell \<Rightarrow> Sheet outcome" where
  "place_new_cell s pos new_cell =
     (case PlaceCell s pos new_cell of
        Inl e \<Rightarrow> Crashed e
      | Inr s1 \<Rightarrow> Returned s1)"

definition rollback :: "Sheet \<Rightarrow> Position \<Rightarrow> Position list \<Rightarrow> Position list \<Rightarrow> Sheet outcome" where
  "rollback s pos new_empty_poses old_poses =
     (case clear_cells s new_empty_poses of
        Thrown e s' \<Rightarrow> Thrown e s'
      | Crashed e \<Rightarrow> Crashed e
      | Returned s1 \<Rightarrow>
          (case add_dependencies (graph s1) pos old_poses of
             Inl e \<Rightarrow> Crashed e
           | Inr g \<Rightarrow> Thrown CircularDependencyException (s1\<lparr>graph := g\<rparr>)))"

definition install :: "nat \<Rightarrow> Sheet \<Rightarrow> Position \<Rightarrow> Cell \<Rightarrow> Position list \<Rightarrow> Position list
      \<Rightarrow> Sheet outcome" where
  "install fuel s pos new_cell new_poses new_empty_poses =
     (let in_graph = Contains (graph s) pos in
      case old_dependencies s pos in_graph of
        Inl e \<Rightarrow> Crashed e
      | Inr old_poses \<Rightarrow>
          (case remove_dependencies (graph s) pos old_poses of
             Inl e \<Rightarrow> Crashed e
           | Inr g1 \<Rightarrow>
               (case add_dependencies (AddCell g1 pos) pos new_poses of
                  Inl e \<Rightarrow> Crashed e
                | Inr g2 \<Rightarrow>
                    let s2 = s\<lparr>graph := g2\<rparr> in
                    if in_graph then
                      (case CheckCyclicDependencies fuel g2 pos of
                         Inl e \<Rightarrow> Crashed e
                       | Inr ok \<Rightarrow>
                           if \<not> ok then rollback s2 pos new_empty_poses old_poses
                           else
                             (case ResetCache fuel s2 pos of
                                Inl e \<Rightarrow> Crashed e
                              | Inr s3 \<Rightarrow> place_new_cell s3 pos new_cell))
                    else place_new_cell s2 pos new_cell)))"

definition SetCell :: "(string \<Rightarrow> FormulaAST option) \<Rightarrow> nat \<Rightarrow> Sheet \<Rightarrow> Position \<Rightarrow> string
      \<Rightarrow> Sheet outcome" where
  "SetCell parse fuel s pos text =
     (if \<not> IsValid pos then Thrown InvalidPositionException s
      else
        (case Cell_Set parse text new_Cell of
           None \<Rightarrow> Thrown FormulaException s
         | Some new_cell \<Rightarrow>
             let new_poses = Cell_GetReferencedCells new_cell in
             (case materialize s pos new_poses [] of
                Thrown e s' \<Rightarrow> Thrown e s'
              | Crashed e \<Rightarrow> Crashed e
              | Returned (s1, new_empty_poses) \<Rightarrow>
                  install fuel s1 pos new_cell new_poses new_empty_poses)))"

subsection \<open>Reading a value\<close>

text \<open>
  \<^verbatim>\<open>Cell::GetValue\<close> of the cell stored at a position: the cached value, or the value of
  the variant, which is then cached. For a formula, \<^verbatim>\<open>Formula::Evaluate\<close> runs the AST with
  the callback \<^verbatim>\<open>cell_value_getter\<close>: \<^verbatim>\<open>sheet.GetCell\<close> (which validates and may throw),
  0.0 for an absent slot, \<^verbatim>\<open>GetValue\<close> of the cell otherwise. An exception of the
  callback is taken to leave \<^verbatim>\<open>Execute\<close> as it is (\<^verbatim>\<open>Formula::Evaluate\<close> catches
  FormulaError only). The recursion follows the references and takes fuel, one unit per
  call.
\<close>

fun to_cell_value :: "FormulaValue \<Rightarrow> CellValue" where
  "to_cell_value (FDouble d) = VDouble d"
| "to_cell_value (FError e) = VError e"

definition store_cache :: "Sheet \<Rightarrow> Position \<Rightarrow> CellValue \<Rightarrow> Sheet" where
  "store_cache s p v = update_cell s p (\<lambda>c. c\<lparr>cache := Some v\<rparr>)"

fun cell_value :: "nat \<Rightarrow> Sheet \<Rightarrow> Position \<Rightarrow> (CellValue \<times> Sheet) outcome"
and run_ast :: "nat \<Rightarrow> Sheet \<Rightarrow> Interaction \<Rightarrow> (FormulaValue \<times> Sheet) outcome" where
  "cell_value 0 s p = Crashed FuelExhausted"
| "cell_value (Suc fuel) s p =
     (case GetConcreteCell s p of
        Inl e \<Rightarrow> Crashed e
      | Inr None \<Rightarrow> Crashed NullDereference
      | Inr (Some c) \<Rightarrow>
          (case cache c of
             Some v \<Rightarrow> Returned (v, s)
           | None \<Rightarrow>
               (case impl c of
                  EmptyImpl \<Rightarrow> Returned (VString [], store_cache s p (VString []))
                | TextImpl text \<Rightarrow>
                    Returned (TextImpl_GetValue text, store_cache s p (TextImpl_GetValue text))
                | FormulaImpl a \<Rightarrow>
                    (case run_ast fuel s (Execute a) of
                       Thrown e s' \<Rightarrow> Thrown e s'
                     | Crashed e \<Rightarrow> Crashed e
                     | Returned (fv, s') \<Rightarrow>
                         Returned (to_cell_value fv, store_cache s' p (to_cell_value fv))))))"
| "run_ast 0 s i = Crashed FuelExhausted"
| "run_ast (Suc fuel) s (Done fv) = Returned (fv, s)"
| "run_ast (Suc fuel) s (Ask p k) =
     (case GetCell s p of
        Thrown e s' \<Rightarrow> Thrown e s'
      | Crashed e \<Rightarrow> Crashed e
      | Returned None \<Rightarrow> run_ast fuel s (k (VDouble 0))
      | Returned (Some c) \<Rightarrow>
          (case cell_value fuel s p of
             Thrown e s' \<Rightarrow> Thrown e s'
           | Crashed e \<Rightarrow> Crashed e
           | Returned (v, s') \<Rightarrow> run_ast fuel s' (k v)))"

text \<open>What a client writes: \<^verbatim>\<open>sheet.GetCell(pos)->GetValue()\<close>.\<close>

definition GetValue :: "nat \<Rightarrow> Sheet \<Rightarrow> Position \<Rightarrow> (CellValue \<times> Sheet) outcome" where
  "GetValue fuel s pos =
     (case GetCell s pos of
        Thrown e s' \<Rightarrow> Thrown e s'
      | Crashed e \<Rightarrow> Crashed e
      | Returned None \<Rightarrow> Crashed NullDereference
      | Returned (Some c) \<Rightarrow> cell_value fuel s pos)"

text \<open>\<^verbatim>\<open>sheet.GetCell(pos)->GetText()\<close>.\<close>

definition GetText :: "Sheet \<Rightarrow> Position \<Rightarrow> string outcome" where
  "GetText s pos =
     (case GetCell s pos of
        Thrown e s' \<Rightarrow> Thrown e s'
      | Crashed e \<Rightarrow> Crashed e
      | Returned None \<Rightarrow> Crashed NullDereference
      | Returned (Some c) \<Rightarrow> Returned (Cell_GetText c))"

section \<open>An example parser for the scenarios\<close>

text \<open>
  Modelled from the spec: the parser and the evaluator of FormulaAST are not among the
  sources, and the spec leaves the formula language open. The scenarios of the spec use a
  reference (\<^verbatim>\<open>=Z9\<close>), a reference plus a number (\<^verbatim>\<open>=A1+3\<close>) and a sum of references; the
  ASTs below answer for exactly these. A reference reads a number as it is, the empty
  string as 0 (the spec's scenario 5 has \<^verbatim>\<open>=Z9\<close> evaluate to 0.0 over an Empty cell) and a
  string of decimal digits as their number (scenario 2 adds 3 to the text \<^verbatim>\<open>2\<close>); it passes
  an error on and gives the error of the category of type mismatches for any other string.
\<close>

definition A1 :: Position where "A1 = \<lparr>row = 0, col = 0\<rparr>"
definition B1 :: Position where "B1 = \<lparr>row = 0, col = 1\<rparr>"
definition C1 :: Position where "C1 = \<lparr>row = 0, col = 2\<rparr>"
definition A2 :: Position where "A2 = \<lparr>row = 1, col = 0\<rparr>"
definition B2 :: Position where "B2 = \<lparr>row = 1, col = 1\<rparr>"
definition B3 :: Position where "B3 = \<lparr>row = 2, col = 1\<rparr>"
definition C3 :: Position where "C3 = \<lparr>row = 2, col = 2\<rparr>"
definition Z9 :: Position where "Z9 = \<lparr>row = 8, col = 25\<rparr>"

fun read_digits :: "string \<Rightarrow> nat \<Rightarrow> nat option" where
  "read_digits [] n = Some n"
| "read_digits (c # cs) n =
     (if CHR ''0'' \<le> c \<and> c \<le> CHR ''9''
      then read_digits cs (10 * n + (of_char c - 48)) else None)"

definition read_number :: "CellValue \<Rightarrow> (real \<Rightarrow> Interaction) \<Rightarrow> Interaction" where
  "read_number v k =
     (case v of
        VDouble d \<Rightarrow> k d
      | VString t \<Rightarrow>
          (case read_digits t 0 of
             Some n \<Rightarrow> k (real n)
           | None \<Rightarrow> Done (FError ErrValue))
      | VError e \<Rightarrow> Done (FError e))"

definition ref_ast :: "Position \<Rightarrow> string \<Rightarrow> FormulaAST" where
  "ref_ast p name =
     \<lparr>GetCells = [p], PrintFormula = name,
      Execute = Ask p (\<lambda>v. read_number v (\<lambda>d. Done (FDouble d)))\<rparr>"

definition ref_plus_number_ast :: "Position \<Rightarrow> string \<Rightarrow> real \<Rightarrow> string \<Rightarrow> FormulaAST" where
  "ref_plus_number_ast p name c digits =
     \<lparr>GetCells = [p], PrintFormula = name @ [CHR ''+''] @ digits,
      Execute = Ask p (\<lambda>v. read_number v (\<lambda>d. Done (FDouble (d + c))))\<rparr>"

definition ref_plus_ref_ast :: "Position \<Rightarrow> string \<Rightarrow> Position \<Rightarrow> string \<Rightarrow> FormulaAST" where
  "ref_plus_ref_ast p name q name' =
     \<lparr>GetCells = [p, q], PrintFormula = name @ [CHR ''+''] @ name',
      Execute = Ask p (\<lambda>v. read_number v (\<lambda>d.
                  Ask q (\<lambda>w. read_number w (\<lambda>e. Done (FDouble (d + e))))))\<rparr>"

definition example_parse :: "string \<Rightarrow> FormulaAST option" where
  "example_parse expression =
     (if expression = ''A1'' then Some (ref_ast A1 ''A1'')
      else if expression = ''B1'' then Some (ref_ast B1 ''B1'')
      else if expression = ''C1'' then Some (ref_ast C1 ''C1'')
      else if expression = ''Z9'' then Some (ref_ast Z9 ''Z9'')
      else if expression = ''Z9+3'' then Some (ref_plus_number_ast Z9 ''Z9'' 3 ''3'')
      else if expression = ''A1+3'' then Some (ref_plus_number_ast A1 ''A1'' 3 ''3'')
      else if expression = ''A1 + 3'' then Some (ref_plus_number_ast A1 ''A1'' 3 ''3'')
      else if expression = ''A1+B1'' then Some (ref_plus_ref_ast A1 ''A1'' B1 ''B1'')
      else None)"

section \<open>Observing outcomes and running scenarios\<close>

fun returned :: "'a outcome \<Rightarrow> bool" where
  "returned (Returned x) = True"
| "returned _ = False"

fun thrown :: "'a outcome \<Rightarrow> exn option" where
  "thrown (Thrown e s) = Some e"
| "thrown _ = None"

fun crash_of :: "'a outcome \<Rightarrow> fatal option" where
  "crash_of (Crashed e) = Some e"
| "crash_of _ = None"

text \<open>The sheet a call leaves behind, whether it returned or threw.\<close>

fun sheet_of :: "Sheet outcome \<Rightarrow> Sheet option" where
  "sheet_of (Returned s) = Some s"
| "sheet_of (Thrown e s) = Some s"
| "sheet_of (Crashed e) = None"

fun value_of :: "(CellValue \<times> Sheet) outcome \<Rightarrow> CellValue option" where
  "value_of (Returned (v, s)) = Some v"
| "value_of _ = None"

fun sheet_after :: "(CellValue \<times> Sheet) outcome \<Rightarrow> Sheet outcome" where
  "sheet_after (Returned (v, s)) = Returned s"
| "sheet_after (Thrown e s) = Thrown e s"
| "sheet_after (Crashed e) = Crashed e"

definition has_cell :: "Sheet \<Rightarrow> Position \<Rightarrow> bool" where
  "has_cell s p = (case GetCell s p of Returned (Some c) \<Rightarrow> True | _ \<Rightarrow> False)"

definition forward_of :: "Sheet \<Rightarrow> Position \<Rightarrow> Position list option" where
  "forward_of s p = map_option forward (graph s p)"

text \<open>The same observations on the sheet that a call has left, if it has left one.\<close>

definition forward_after :: "Sheet outcome \<Rightarrow> Position \<Rightarrow> Position list option" where
  "forward_after out p = Option.bind (sheet_of out) (\<lambda>s. forward_of s p)"

definition node_after :: "Sheet outcome \<Rightarrow> Position \<Rightarrow> bool option" where
  "node_after out p = map_option (\<lambda>s. Contains (graph s) p) (sheet_of out)"

definition has_cell_after :: "Sheet outcome \<Rightarrow> Position \<Rightarrow> bool option" where
  "has_cell_after out p = map_option (\<lambda>s. has_cell s p) (sheet_of out)"

definition size_after :: "Sheet outcome \<Rightarrow> Size option" where
  "size_after out = map_option GetPrintableSize (sheet_of out)"

definition stored_rows_after :: "Sheet outcome \<Rightarrow> nat option" where
  "stored_rows_after out = map_option (\<lambda>s. length (cells s)) (sheet_of out)"

text \<open>
  Running a list of calls, each on the sheet the one before left (a thrown exception is
  caught by the client, who goes on with the sheet). The formulas go through the example
  parser, and the fuel 10 is more than the depth of any scenario below.
\<close>

fun then_SetCell :: "Sheet outcome \<Rightarrow> Position \<Rightarrow> string \<Rightarrow> Sheet outcome" where
  "then_SetCell (Returned s) pos text = SetCell example_parse 10 s pos text"
| "then_SetCell (Thrown e s) pos text = SetCell example_parse 10 s pos text"
| "then_SetCell (Crashed e) pos text = Crashed e"

fun then_ClearCell :: "Sheet outcome \<Rightarrow> Position \<Rightarrow> Sheet outcome" where
  "then_ClearCell (Returned s) pos = ClearCell s pos"
| "then_ClearCell (Thrown e s) pos = ClearCell s pos"
| "then_ClearCell (Crashed e) pos = Crashed e"

fun then_GetValue :: "Sheet outcome \<Rightarrow> Position \<Rightarrow> (CellValue \<times> Sheet) outcome" where
  "then_GetValue (Returned s) pos = GetValue 10 s pos"
| "then_GetValue (Thrown e s) pos = GetValue 10 s pos"
| "then_GetValue (Crashed e) pos = Crashed e"

section \<open>Properties of the dependency graph\<close>

definition forward_set :: "DependencyGraph \<Rightarrow> Position \<Rightarrow> Position set" where
  "forward_set g p = (case g p of None \<Rightarrow> {} | Some n \<Rightarrow> set (forward n))"

definition backward_set :: "DependencyGraph \<Rightarrow> Position \<Rightarrow> Position set" where
  "backward_set g p = (case g p of None \<Rightarrow> {} | Some n \<Rightarrow> set (backward n))"

definition mutually_consistent :: "DependencyGraph \<Rightarrow> bool" where
  "mutually_consistent g \<longleftrightarrow> (\<forall>p q. q \<in> forward_set g p \<longleftrightarrow> p \<in> backward_set g q)"

definition no_dangling :: "DependencyGraph \<Rightarrow> bool" where
  "no_dangling g \<longleftrightarrow> (\<forall>p. forward_set g p \<subseteq> dom g \<and> backward_set g p \<subseteq> dom g)"

text \<open>The graphs that sequences of the four operations build from the empty graph.\<close>

inductive graph_reachable :: "DependencyGraph \<Rightarrow> bool" where
  start: "graph_reachable Map.empty"
| add_cell: "graph_reachable g \<Longrightarrow> graph_reachable (AddCell g p)"
| add_dependency: "graph_reachable g \<Longrightarrow> AddDependency g a b = Inr g' \<Longrightarrow> graph_reachable g'"
| remove_dependency: "graph_reachable g \<Longrightarrow> RemoveDependency g a b = Inr g' \<Longrightarrow> graph_reachable g'"
| remove_cell: "graph_reachable g \<Longrightarrow> RemoveCell g p = Inr g' \<Longrightarrow> graph_reachable g'"

definition example_graph :: "DependencyGraph" where
  "example_graph =
     (case AddDependency (AddCell (AddCell Map.empty A1) B1) A1 B1 of
        Inr g \<Rightarrow> g
      | Inl e \<Rightarrow> Map.empty)"

section \<open>Scenarios\<close>

definition chain_of_three :: "Sheet outcome" where
  "chain_of_three = then_SetCell (then_SetCell (Returned new_Sheet) A1 ''=B1'') B1 ''=C1''"

definition closing_the_cycle :: "Sheet outcome" where
  "closing_the_cycle = then_SetCell chain_of_three C1 ''=A1''"

definition self_reference_second :: "Sheet outcome" where
  "self_reference_second = then_SetCell (Returned new_Sheet) B1 ''=A1+B1''"

definition two_and_sum :: "Sheet outcome" where
  "two_and_sum = then_SetCell (then_SetCell (Returned new_Sheet) A1 ''2'') C3 ''=A1+3''"

definition three_in_a_staircase :: "Sheet outcome" where
  "three_in_a_staircase =
     then_SetCell (then_SetCell (then_SetCell (Returned new_Sheet) C1 ''x'') A2 ''y'') B3 ''z''"

section \<open>Properties of the grid\<close>

text \<open>
  The slot of the grid at a pair of indices, and at a position; and two relations between
  a sheet and a later one that differs from it in cached values only.
\<close>

definition grid_at :: "Cell option list list \<Rightarrow> nat \<Rightarrow> nat \<Rightarrow> Cell option" where
  "grid_at cs i j = (if i < length cs \<and> j < length (cs ! i) then cs ! i ! j else None)"

definition slot :: "Sheet \<Rightarrow> Position \<Rightarrow> Cell option" where
  "slot s p = grid_at (cells s) (nat (row p)) (nat (col p))"

definition nonneg :: "Position \<Rightarrow> bool" where
  "nonneg p \<longleftrightarrow> 0 \<le> row p \<and> 0 \<le> col p"

definition caches_only :: "Sheet \<Rightarrow> Sheet \<Rightarrow> bool" where
  "caches_only s s' \<longleftrightarrow>
     graph s' = graph s \<and> printable_size s' = printable_size s \<and>
     length (cells s') = length (cells s) \<and>
     (\<forall>i j. map_option impl (grid_at (cells s') i j) = map_option impl (grid_at (cells s) i j))"

definition caches_reset :: "Sheet \<Rightarrow> Sheet \<Rightarrow> bool" where
  "caches_reset s s' \<longleftrightarrow>
     caches_only s s' \<and>
     (\<forall>i j c'. grid_at (cells s') i j = Some c' \<longrightarrow>
        cache c' = None \<or> grid_at (cells s) i j = Some c')"

section \<open>Sheets in use and their cached values\<close>

text \<open>
  The sheets that a client reaches through the interface, starting from an empty sheet;
  a call that throws leaves a sheet the client can go on with. A cached value agrees with
  its cell when it is the value the variant computes; for a formula that depends on other
  cells, so only Empty and Text cells are constrained.
\<close>

definition cache_agrees :: "Cell \<Rightarrow> bool" where
  "cache_agrees c \<longleftrightarrow>
     (case impl c of
        EmptyImpl \<Rightarrow> cache c = None \<or> cache c = Some (VString [])
      | TextImpl text \<Rightarrow> cache c = None \<or> cache c = Some (TextImpl_GetValue text)
      | FormulaImpl a \<Rightarrow> True)"

definition caches_agree :: "Sheet \<Rightarrow> bool" where
  "caches_agree s \<longleftrightarrow> (\<forall>i j c. grid_at (cells s) i j = Some c \<longrightarrow> cache_agrees c)"

inductive sheet_reachable :: "(string \<Rightarrow> FormulaAST option) \<Rightarrow> Sheet \<Rightarrow> bool"
  for parse :: "string \<Rightarrow> FormulaAST option" where
  created: "sheet_reachable parse new_Sheet"
| set_returned: "sheet_reachable parse s \<Longrightarrow> SetCell parse fuel s pos text = Returned s'
     \<Longrightarrow> sheet_reachable parse s'"
| set_thrown: "sheet_reachable parse s \<Longrightarrow> SetCell parse fuel s pos text = Thrown e s'
     \<Longrightarrow> sheet_reachable parse s'"
| clear_returned: "sheet_reachable parse s \<Longrightarrow> ClearCell s pos = Returned s'
     \<Longrightarrow> sheet_reachable parse s'"
| clear_thrown: "sheet_reachable parse s \<Longrightarrow> ClearCell s pos = Thrown e s'
     \<Longrightarrow> sheet_reachable parse s'"
| value_returned: "sheet_reachable parse s \<Longrightarrow> GetValue fuel s pos = Returned (v, s')
     \<Longrightarrow> sheet_reachable parse s'"
| value_thrown: "sheet_reachable parse s \<Longrightarrow> GetValue fuel s pos = Thrown e s'
     \<Longrightarrow> sheet_reachable parse s'"

fun ends_in :: "('a \<times> Sheet) outcome \<Rightarrow> Sheet \<Rightarrow> bool" where
  "ends_in (Returned (v, s')) s = (s' = s)"
| "ends_in (Thrown e s') s = (s' = s)"
| "ends_in (Crashed e) s = False"

text \<open>The positions that the cell stored at a position refers to.\<close>

definition stored_references :: "Sheet \<Rightarrow> Position \<Rightarrow> Position set" where
  "stored_references s pos =
     (case slot s pos of None \<Rightarrow> {} | Some c \<Rightarrow> set (Cell_GetReferencedCells c))"

text \<open>
  What claim C4 asks of the printable size; that each node carries its own key; the
  positions from which the backward sets lead to a position; and a cell without a cached
  value at a position.
\<close>

definition printable_size_exact :: "Sheet \<Rightarrow> bool" where
  "printable_size_exact s \<longleftrightarrow>
     int (length (cells s)) = rows (printable_size s) \<and> 0 \<le> cols (printable_size s) \<and>
     (\<forall>i j. grid_at (cells s) i j \<noteq> None \<longrightarrow>
        int i < rows (printable_size s) \<and> int j < cols (printable_size s)) \<and>
     (0 < rows (printable_size s) \<longrightarrow>
        (\<exists>j. grid_at (cells s) (nat (rows (printable_size s) - 1)) j \<noteq> None)) \<and>
     (0 < cols (printable_size s) \<longrightarrow>
        (\<exists>i. grid_at (cells s) i (nat (cols (printable_size s) - 1)) \<noteq> None))"

definition node_keys :: "DependencyGraph \<Rightarrow> bool" where
  "node_keys g \<longleftrightarrow> (\<forall>p n. g p = Some n \<longrightarrow> cell n = p)"

inductive ancestor :: "DependencyGraph \<Rightarrow> Position \<Rightarrow> Position \<Rightarrow> bool"
  for g :: DependencyGraph and c :: Position where
  self: "ancestor g c c"
| step: "ancestor g c p \<Longrightarrow> q \<in> backward_set g p \<Longrightarrow> ancestor g c q"

definition reset_at :: "Sheet \<Rightarrow> Position \<Rightarrow> bool" where
  "reset_at s q \<longleftrightarrow> nonneg q \<and> (\<exists>c. slot s q = Some c \<and> cache c = None)"

section \<open>The value of a cell in the words of the spec\<close>



section \<open>The dependency graph keeps its two sets consistent\<close>

lemma set_uset_insert [simp]: "set (uset_insert x xs) = insert x (set xs)"
  by (auto simp: uset_insert_def)

lemma set_uset_erase [simp]: "set (uset_erase x xs) = set xs - {x}"
  by (auto simp: uset_erase_def)

lemma AddCell_obs:
  "dom (AddCell g p) = insert p (dom g)"
  "forward_set (AddCell g p) = forward_set g"
  "backward_set (AddCell g p) = backward_set g"
  by (auto simp: AddCell_def Contains_def forward_set_def backward_set_def fun_eq_iff
      split: option.splits)

lemma AddDependency_Inr:
  "AddDependency g a b = Inr g' \<Longrightarrow>
     \<exists>na nb. g a = Some na \<and> g b = Some nb \<and>
       g' = (g(a \<mapsto> na\<lparr>forward := uset_insert b (forward na)\<rparr>))
              (b \<mapsto> (the ((g(a \<mapsto> na\<lparr>forward := uset_insert b (forward na)\<rparr>)) b))
                      \<lparr>backward := uset_insert a (backward (the ((g(a \<mapsto> na\<lparr>forward := uset_insert b (forward na)\<rparr>)) b)))\<rparr>)"
  by (cases "g a"; cases "g b") (simp_all add: AddDependency_def Let_def)

lemma AddDependency_obs:
  assumes "AddDependency g a b = Inr g'"
  shows "dom g' = dom g" and "a \<in> dom g" and "b \<in> dom g"
    and "forward_set g' = (forward_set g)(a := insert b (forward_set g a))"
    and "backward_set g' = (backward_set g)(b := insert a (backward_set g b))"
proof -
  from AddDependency_Inr [OF assms] obtain na nb where
    a: "g a = Some na" and b: "g b = Some nb" and
    g': "g' = (g(a \<mapsto> na\<lparr>forward := uset_insert b (forward na)\<rparr>))
              (b \<mapsto> (the ((g(a \<mapsto> na\<lparr>forward := uset_insert b (forward na)\<rparr>)) b))
                      \<lparr>backward := uset_insert a (backward (the ((g(a \<mapsto> na\<lparr>forward := uset_insert b (forward na)\<rparr>)) b)))\<rparr>)"
    by blast
  show "a \<in> dom g" "b \<in> dom g" using a b by auto
  show "dom g' = dom g" using a b by (auto simp: g')
  show "forward_set g' = (forward_set g)(a := insert b (forward_set g a))"
  proof
    fix p show "forward_set g' p = ((forward_set g)(a := insert b (forward_set g a))) p"
      using a b by (cases "a = b") (simp_all add: g' forward_set_def)
  qed
  show "backward_set g' = (backward_set g)(b := insert a (backward_set g b))"
  proof
    fix p show "backward_set g' p = ((backward_set g)(b := insert a (backward_set g b))) p"
      using a b by (cases "a = b") (simp_all add: g' backward_set_def)
  qed
qed

lemma RemoveDependency_Inr:
  "RemoveDependency g a b = Inr g' \<Longrightarrow>
     \<exists>na nb. g a = Some na \<and> g b = Some nb \<and>
       g' = (g(a \<mapsto> na\<lparr>forward := uset_erase b (forward na)\<rparr>))
              (b \<mapsto> (the ((g(a \<mapsto> na\<lparr>forward := uset_erase b (forward na)\<rparr>)) b))
                      \<lparr>backward := uset_erase a (backward (the ((g(a \<mapsto> na\<lparr>forward := uset_erase b (forward na)\<rparr>)) b)))\<rparr>)"
  by (cases "g a"; cases "g b") (simp_all add: RemoveDependency_def Let_def)

lemma RemoveDependency_obs:
  assumes "RemoveDependency g a b = Inr g'"
  shows "dom g' = dom g" and "a \<in> dom g" and "b \<in> dom g"
    and "forward_set g' = (forward_set g)(a := forward_set g a - {b})"
    and "backward_set g' = (backward_set g)(b := backward_set g b - {a})"
proof -
  from RemoveDependency_Inr [OF assms] obtain na nb where
    a: "g a = Some na" and b: "g b = Some nb" and
    g': "g' = (g(a \<mapsto> na\<lparr>forward := uset_erase b (forward na)\<rparr>))
              (b \<mapsto> (the ((g(a \<mapsto> na\<lparr>forward := uset_erase b (forward na)\<rparr>)) b))
                      \<lparr>backward := uset_erase a (backward (the ((g(a \<mapsto> na\<lparr>forward := uset_erase b (forward na)\<rparr>)) b)))\<rparr>)"
    by blast
  show "a \<in> dom g" "b \<in> dom g" using a b by auto
  show "dom g' = dom g" using a b by (auto simp: g')
  show "forward_set g' = (forward_set g)(a := forward_set g a - {b})"
  proof
    fix p show "forward_set g' p = ((forward_set g)(a := forward_set g a - {b})) p"
      using a b by (cases "a = b") (simp_all add: g' forward_set_def)
  qed
  show "backward_set g' = (backward_set g)(b := backward_set g b - {a})"
  proof
    fix p show "backward_set g' p = ((backward_set g)(b := backward_set g b - {a})) p"
      using a b by (cases "a = b") (simp_all add: g' backward_set_def)
  qed
qed

lemma erase_from_backward_obs:
  "erase_from_backward p qs g = Inr g' \<Longrightarrow>
     dom g' = dom g \<and> set qs \<subseteq> dom g \<and> forward_set g' = forward_set g \<and>
     (\<forall>q. backward_set g' q = (if q \<in> set qs then backward_set g q - {p} else backward_set g q))"
proof (induction qs arbitrary: g)
  case Nil
  then show ?case by simp
next
  case (Cons q qs)
  then obtain n where n: "g q = Some n" by (cases "g q") simp_all
  define g1 where "g1 = g(q \<mapsto> n\<lparr>backward := uset_erase p (backward n)\<rparr>)"
  from Cons.prems n have "erase_from_backward p qs g1 = Inr g'" by (simp add: g1_def)
  from Cons.IH [OF this] have ih: "dom g' = dom g1" "set qs \<subseteq> dom g1"
    "forward_set g' = forward_set g1"
    "\<And>r. backward_set g' r = (if r \<in> set qs then backward_set g1 r - {p} else backward_set g1 r)"
    by simp_all
  have d: "dom g1 = dom g" using n by (auto simp: g1_def)
  have f: "forward_set g1 = forward_set g"
    using n by (auto simp: g1_def forward_set_def fun_eq_iff)
  have b: "\<And>r. backward_set g1 r = (if r = q then backward_set g q - {p} else backward_set g r)"
    using n by (simp add: g1_def backward_set_def)
  show ?case using ih d f b n by auto
qed

lemma erase_from_forward_obs:
  "erase_from_forward p qs g = Inr g' \<Longrightarrow>
     dom g' = dom g \<and> set qs \<subseteq> dom g \<and> backward_set g' = backward_set g \<and>
     (\<forall>q. forward_set g' q = (if q \<in> set qs then forward_set g q - {p} else forward_set g q))"
proof (induction qs arbitrary: g)
  case Nil
  then show ?case by simp
next
  case (Cons q qs)
  then obtain n where n: "g q = Some n" by (cases "g q") simp_all
  define g1 where "g1 = g(q \<mapsto> n\<lparr>forward := uset_erase p (forward n)\<rparr>)"
  from Cons.prems n have "erase_from_forward p qs g1 = Inr g'" by (simp add: g1_def)
  from Cons.IH [OF this] have ih: "dom g' = dom g1" "set qs \<subseteq> dom g1"
    "backward_set g' = backward_set g1"
    "\<And>r. forward_set g' r = (if r \<in> set qs then forward_set g1 r - {p} else forward_set g1 r)"
    by simp_all
  have d: "dom g1 = dom g" using n by (auto simp: g1_def)
  have f: "backward_set g1 = backward_set g"
    using n by (auto simp: g1_def backward_set_def fun_eq_iff)
  have b: "\<And>r. forward_set g1 r = (if r = q then forward_set g q - {p} else forward_set g r)"
    using n by (simp add: g1_def forward_set_def)
  show ?case using ih d f b n by auto
qed

lemma RemoveCell_obs:
  assumes "RemoveCell g p = Inr g'" and "p \<in> dom g"
  shows "dom g' = dom g - {p}"
    and "\<And>q. q \<noteq> p \<Longrightarrow> forward_set g' q =
           (if q \<in> backward_set g p then forward_set g q - {p} else forward_set g q)"
    and "\<And>q. q \<noteq> p \<Longrightarrow> backward_set g' q =
           (if q \<in> forward_set g p then backward_set g q - {p} else backward_set g q)"
    and "forward_set g' p = {}" and "backward_set g' p = {}"
proof -
  from assms(2) obtain n where n: "g p = Some n" by auto
  obtain g1 where g1: "erase_from_backward p (forward n) g = Inr g1"
    using assms(1) n by (cases "erase_from_backward p (forward n) g") (simp_all add: RemoveCell_def)
  obtain g2 where g2: "erase_from_forward p (backward (the (g1 p))) g1 = Inr g2"
    using assms(1) n g1
    by (cases "erase_from_forward p (backward (the (g1 p))) g1") (simp_all add: RemoveCell_def)
  have g': "g' = g2(p := None)"
    using assms(1) n g1 g2 by (simp add: RemoveCell_def)
  note o1 = erase_from_backward_obs [OF g1]
  note o2 = erase_from_forward_obs [OF g2]
  from o1 n have pd: "p \<in> dom g1" by auto
  then have bw: "set (backward (the (g1 p))) = backward_set g1 p"
    by (auto simp: backward_set_def)
  have fw: "set (forward n) = forward_set g p" using n by (simp add: forward_set_def)
  show "dom g' = dom g - {p}" using o1 o2 g' by auto
  show "forward_set g' p = {}" "backward_set g' p = {}"
    using g' by (simp_all add: forward_set_def backward_set_def)
  {
    fix q assume q: "q \<noteq> p"
    then have a: "forward_set g' q = forward_set g2 q" "backward_set g' q = backward_set g2 q"
      using g' by (simp_all add: forward_set_def backward_set_def)
    have b1: "backward_set g1 p - {p} = backward_set g p - {p}" using o1 by auto
    have "forward_set g2 q = (if q \<in> backward_set g1 p then forward_set g q - {p} else forward_set g q)"
      using o1 o2 bw by simp
    moreover have "q \<in> backward_set g1 p \<longleftrightarrow> q \<in> backward_set g p" using b1 q by blast
    ultimately show "forward_set g' q =
           (if q \<in> backward_set g p then forward_set g q - {p} else forward_set g q)"
      using a by simp
    show "backward_set g' q =
           (if q \<in> forward_set g p then backward_set g q - {p} else backward_set g q)"
      using a o1 o2 fw by simp
  }
qed

lemma AddCell_invariant:
  "mutually_consistent g \<and> no_dangling g \<Longrightarrow>
   mutually_consistent (AddCell g p) \<and> no_dangling (AddCell g p)"
  unfolding mutually_consistent_def no_dangling_def
  by (simp add: AddCell_obs subset_insertI2)

lemma AddDependency_invariant:
  assumes "mutually_consistent g \<and> no_dangling g" and "AddDependency g a b = Inr g'"
  shows "mutually_consistent g' \<and> no_dangling g'"
  using assms(1) AddDependency_obs [OF assms(2)]
  unfolding mutually_consistent_def no_dangling_def
  by (simp add: subset_iff)

lemma RemoveDependency_invariant:
  assumes "mutually_consistent g \<and> no_dangling g" and "RemoveDependency g a b = Inr g'"
  shows "mutually_consistent g' \<and> no_dangling g'"
  using assms(1) RemoveDependency_obs [OF assms(2)]
  unfolding mutually_consistent_def no_dangling_def
  by (simp add: subset_iff) blast

lemma RemoveCell_invariant:
  assumes inv: "mutually_consistent g \<and> no_dangling g" and rm: "RemoveCell g p = Inr g'"
  shows "mutually_consistent g' \<and> no_dangling g'"
proof (cases "p \<in> dom g")
  case False
  then have "g p = None" by auto
  with rm have "g' = g" by (simp add: RemoveCell_def)
  with inv show ?thesis by simp
next
  case True
  note o = RemoveCell_obs [OF rm True]
  from inv have sym: "\<And>a b. b \<in> forward_set g a \<longleftrightarrow> a \<in> backward_set g b"
    and cl: "\<And>a. forward_set g a \<subseteq> dom g" "\<And>a. backward_set g a \<subseteq> dom g"
    by (simp_all add: mutually_consistent_def no_dangling_def)
  have f: "\<And>a. forward_set g' a = (if a = p then {} else forward_set g a - {p})"
  proof -
    fix a show "forward_set g' a = (if a = p then {} else forward_set g a - {p})"
    proof (cases "a = p")
      case True then show ?thesis using o(4) by simp
    next
      case False
      then show ?thesis using o(2) [OF False] sym [of p a] by auto
    qed
  qed
  have b: "\<And>a. backward_set g' a = (if a = p then {} else backward_set g a - {p})"
  proof -
    fix a show "backward_set g' a = (if a = p then {} else backward_set g a - {p})"
    proof (cases "a = p")
      case True then show ?thesis using o(5) by simp
    next
      case False
      then show ?thesis using o(3) [OF False] sym [of a p] by auto
    qed
  qed
  have "mutually_consistent g'"
    unfolding mutually_consistent_def using sym by (auto simp: f b)
  moreover have "no_dangling g'"
    unfolding no_dangling_def
  proof (intro allI conjI subsetI)
    fix a x assume "x \<in> forward_set g' a"
    then have "x \<in> forward_set g a" "x \<noteq> p" by (auto simp: f split: if_splits)
    then show "x \<in> dom g'" using cl(1) [of a] o(1) by blast
  next
    fix a x assume "x \<in> backward_set g' a"
    then have "x \<in> backward_set g a" "x \<noteq> p" by (auto simp: b split: if_splits)
    then show "x \<in> dom g'" using cl(2) [of a] o(1) by blast
  qed
  ultimately show ?thesis ..
qed

lemma graph_reachable_invariant:
  "graph_reachable g \<Longrightarrow> mutually_consistent g \<and> no_dangling g"
proof (induction rule: graph_reachable.induct)
  case start
  show ?case by (simp add: mutually_consistent_def no_dangling_def forward_set_def backward_set_def)
next
  case (add_cell g p)
  from add_cell.IH show ?case by (rule AddCell_invariant)
next
  case (add_dependency g a b g')
  from add_dependency.IH add_dependency.hyps(2) show ?case by (rule AddDependency_invariant)
next
  case (remove_dependency g a b g')
  from remove_dependency.IH remove_dependency.hyps(2) show ?case by (rule RemoveDependency_invariant)
next
  case (remove_cell g p g')
  from remove_cell.IH remove_cell.hyps(2) show ?case by (rule RemoveCell_invariant)
qed

text \<open>
  Claim C6. After every sequence of \<^verbatim>\<open>AddCell\<close>, \<^verbatim>\<open>AddDependency\<close>, \<^verbatim>\<open>RemoveDependency\<close>
  and \<^verbatim>\<open>RemoveCell\<close> (each running to its end, that is, with its assertions true), for
  every pair of nodes \<open>p\<close> and \<open>q\<close> of the graph: \<open>q\<close> is in the forward set of \<open>p\<close> if and
  only if \<open>p\<close> is in the backward set of \<open>q\<close>.
\<close>

theorem forward_backward_mutually_consistent:
  assumes "graph_reachable g" and "g p = Some np" and "g q = Some nq"
  shows "q \<in> set (forward np) \<longleftrightarrow> p \<in> set (backward nq)"
proof -
  from graph_reachable_invariant [OF assms(1)]
  have "q \<in> forward_set g p \<longleftrightarrow> p \<in> backward_set g q"
    by (simp add: mutually_consistent_def)
  with assms(2,3) show ?thesis by (simp add: forward_set_def backward_set_def)
qed


lemma example_graph_reachable: "graph_reachable example_graph"
proof -
  have "AddDependency (AddCell (AddCell Map.empty A1) B1) A1 B1 = Inr example_graph"
    by (simp add: example_graph_def AddDependency_def AddCell_def Contains_def A1_def B1_def Let_def)
  from graph_reachable.add_dependency
         [OF graph_reachable.add_cell [OF graph_reachable.add_cell [OF graph_reachable.start]] this]
  show ?thesis .
qed

theorem forward_backward_mutually_consistent_witness:
  "graph_reachable example_graph \<and>
   example_graph A1 = Some \<lparr>cell = A1, forward = [B1], backward = []\<rparr> \<and>
   example_graph B1 = Some \<lparr>cell = B1, forward = [], backward = [A1]\<rparr> \<and>
   (B1 \<in> set (forward \<lparr>cell = A1, forward = [B1], backward = []\<rparr>) \<longleftrightarrow>
    A1 \<in> set (backward \<lparr>cell = B1, forward = [], backward = [A1]\<rparr>))"
proof -
  have a: "example_graph A1 = Some \<lparr>cell = A1, forward = [B1], backward = []\<rparr>"
    by code_simp
  have b: "example_graph B1 = Some \<lparr>cell = B1, forward = [], backward = [A1]\<rparr>"
    by code_simp
  from forward_backward_mutually_consistent [OF example_graph_reachable a b]
  show ?thesis using example_graph_reachable a b by simp
qed


section \<open>What the scenarios show\<close>

text \<open>
  Claim C1. A \<^verbatim>\<open>SetCell\<close> that fails with the circular-dependency exception after the
  cycle probe should leave the graph as it was. With A1 referring to B1 and B1 to C1, the
  call \<^verbatim>\<open>SetCell(C1, "=A1")\<close> throws that exception, and the edge from C1 to A1 that it
  added for the probe is still in the graph afterwards: the rollback puts the old edges
  back and never removes the new ones.
\<close>

theorem failed_SetCell_leaves_new_edge:
  "returned chain_of_three \<and>
   forward_after chain_of_three C1 = Some [] \<and>
   thrown closing_the_cycle = Some CircularDependencyException \<and>
   forward_after closing_the_cycle C1 = Some [A1]"
  by code_simp

text \<open>
  Claim C2. A \<^verbatim>\<open>SetCell\<close> whose new cell refers to its own position should fail before
  any change of state. On the empty sheet, \<^verbatim>\<open>SetCell(B1, "=A1+B1")\<close> throws the
  circular-dependency exception, but the loop has met A1 before B1 and has placed an Empty
  cell there: A1 holds a cell afterwards and the printable size is 1 by 1.
\<close>

theorem self_reference_leaves_phantom:
  "\<not> has_cell new_Sheet A1 \<and>
   GetPrintableSize new_Sheet = \<lparr>rows = 0, cols = 0\<rparr> \<and>
   thrown self_reference_second = Some CircularDependencyException \<and>
   has_cell_after self_reference_second A1 = Some True \<and>
   size_after self_reference_second = Some \<lparr>rows = 1, cols = 1\<rparr>"
  by code_simp

text \<open>
  Claim C3. After a descendant of a formula cell is modified by \<^verbatim>\<open>ClearCell\<close>, the next
  \<^verbatim>\<open>GetValue\<close> of that cell should recompute. With the text 2 in A1 and \<^verbatim>\<open>=A1+3\<close> in C3,
  \<^verbatim>\<open>GetValue(C3)\<close> is 5; after \<^verbatim>\<open>ClearCell(A1)\<close> it is still 5, the cached value, while
  the same reading without the earlier \<^verbatim>\<open>GetValue\<close> (nothing cached) gives 3.
\<close>

theorem ClearCell_keeps_stale_cache:
  "value_of (then_GetValue two_and_sum C3) = Some (VDouble 5) \<and>
   returned (then_ClearCell (sheet_after (then_GetValue two_and_sum C3)) A1) \<and>
   value_of (then_GetValue (then_ClearCell (sheet_after (then_GetValue two_and_sum C3)) A1) C3)
     = Some (VDouble 5) \<and>
   value_of (then_GetValue (then_ClearCell two_and_sum A1) C3) = Some (VDouble 3)"
  by code_simp

text \<open>
  Claim C4. After every sequence of \<^verbatim>\<open>SetCell\<close> and \<^verbatim>\<open>ClearCell\<close> the printable size
  should be one more than the largest occupied row and one more than the largest occupied
  column. With cells in C1, A2 and B3 the size is 3 by 3 and the grid stores 3 rows;
  \<^verbatim>\<open>ClearCell(B3)\<close> should leave 2 by 3, but its rescan starts at the row of index 3, which
  the grid does not have, and no size is produced.
\<close>

theorem ClearCell_produces_no_size:
  "size_after three_in_a_staircase = Some \<lparr>rows = 3, cols = 3\<rparr> \<and>
   stored_rows_after three_in_a_staircase = Some 3 \<and>
   crash_of (then_ClearCell three_in_a_staircase B3) = Some OutOfRange \<and>
   size_after (then_ClearCell three_in_a_staircase B3) = None"
  by code_simp

text \<open>
  Claim C10. \<^verbatim>\<open>ClearCell\<close> should read the grid in bounds only. After
  \<^verbatim>\<open>SetCell(A1, "x")\<close> the grid has one row; \<^verbatim>\<open>ClearCell(A1)\<close> clears a cell on the
  boundary of the printable region and its rescan reads \<^verbatim>\<open>cells_[1]\<close>.
\<close>

theorem ClearCell_reads_past_last_row:
  "stored_rows_after (then_SetCell (Returned new_Sheet) A1 ''x'') = Some 1 \<and>
   size_after (then_SetCell (Returned new_Sheet) A1 ''x'') = Some \<lparr>rows = 1, cols = 1\<rparr> \<and>
   crash_of (then_ClearCell (then_SetCell (Returned new_Sheet) A1 ''x'') A1) = Some OutOfRange"
  by code_simp



section \<open>The grid under the operations of the sheet\<close>

lemma IsValid_nonneg: "IsValid p \<Longrightarrow> nonneg p"
  by (simp add: IsValid_def nonneg_def)

lemma nonneg_eq_iff:
  "nonneg p \<Longrightarrow> nonneg q \<Longrightarrow> (nat (row p) = nat (row q) \<and> nat (col p) = nat (col q)) \<longleftrightarrow> p = q"
  by (cases p, cases q) (auto simp: nonneg_def)

lemma GetConcreteCell_nonneg: "nonneg p \<Longrightarrow> GetConcreteCell s p = Inr (slot s p)"
  by (auto simp: GetConcreteCell_def vec_at_def slot_def grid_at_def nonneg_def)

lemma GetCell_valid: "IsValid p \<Longrightarrow> GetCell s p = Returned (slot s p)"
  by (simp add: GetCell_def GetConcreteCell_nonneg IsValid_nonneg)

lemma GetCell_invalid: "\<not> IsValid p \<Longrightarrow> GetCell s p = Thrown InvalidPositionException s"
  by (simp add: GetCell_def)

lemma grid_at_update:
  "grid_at (cs[i := (cs ! i)[j := v]]) i' j' =
     (if i' = i \<and> j' = j \<and> i < length cs \<and> j < length (cs ! i) then v else grid_at cs i' j')"
proof (cases "i' = i")
  case True
  then show ?thesis by (cases "j' = j") (auto simp: grid_at_def)
next
  case False
  then show ?thesis by (auto simp: grid_at_def)
qed

lemma grid_at_resize_rows:
  "grid_at (vec_resize n [] cs) i j = (if i < n then grid_at cs i j else None)"
  by (auto simp: grid_at_def vec_resize_def nth_append)

lemma PlaceCell_nonneg:
  assumes "nonneg p"
  shows "\<exists>s'. PlaceCell s p c = Inr s' \<and> graph s' = graph s \<and>
           printable_size s' = \<lparr>rows = max (rows (printable_size s)) (row p + 1),
                                 cols = max (cols (printable_size s)) (col p + 1)\<rparr> \<and>
           length (cells s') = max (length (cells s)) (nat (row p) + 1) \<and>
           (\<forall>i j. grid_at (cells s') i j =
              (if i = nat (row p) \<and> j = nat (col p) then Some c else grid_at (cells s) i j))"
proof -
  define cs where "cs = (if row p \<ge> int (length (cells s))
                then vec_resize (nat (row p + 1)) [] (cells s) else cells s)"
  have len: "nat (row p) < length cs" "length cs = max (length (cells s)) (nat (row p) + 1)"
    using assms by (auto simp: cs_def vec_resize_def nonneg_def)
  then have at: "vec_at cs (row p) = Some (cs ! nat (row p))"
    using assms by (simp add: vec_at_def nonneg_def)
  define r where "r = cs ! nat (row p)"
  define r1 where "r1 = (if col p \<ge> int (length r) then vec_resize (nat (col p + 1)) None r else r)"
  have lr: "nat (col p) < length r1"
    using assms by (auto simp: r1_def vec_resize_def nonneg_def)
  then have ok: "0 \<le> col p \<and> col p < int (length r1)" using assms by (auto simp: nonneg_def)
  define s' where "s' = s\<lparr>cells := cs[nat (row p) := r1[nat (col p) := Some c]],
                         printable_size :=
                           \<lparr>rows = max (rows (printable_size s)) (row p + 1),
                            cols = max (cols (printable_size s)) (col p + 1)\<rparr>\<rparr>"
  have eq: "PlaceCell s p c = Inr s'"
    unfolding PlaceCell_def Let_def cs_def [symmetric] at option.case r_def [symmetric] r1_def [symmetric]
    using ok by (simp add: s'_def)
  have g: "\<And>i j. grid_at (cells s') i j =
              (if i = nat (row p) \<and> j = nat (col p) then Some c else grid_at (cells s) i j)"
  proof -
    fix i j
    have rows_same: "i \<noteq> nat (row p) \<Longrightarrow> grid_at (cells s') i j = grid_at (cells s) i j"
      using len assms
      by (auto simp: s'_def grid_at_def cs_def vec_resize_def nth_append nonneg_def)
    have r_at: "\<And>j. j < length r \<Longrightarrow> grid_at (cells s) (nat (row p)) j = r ! j"
      "\<And>j. grid_at (cells s) (nat (row p)) j \<noteq> None \<Longrightarrow> j < length r"
      using assms
      by (auto simp: grid_at_def r_def cs_def vec_resize_def nth_append nonneg_def split: if_splits)
    have same_row: "i = nat (row p) \<Longrightarrow> grid_at (cells s') i j =
        (if j = nat (col p) then Some c else grid_at (cells s) i j)"
    proof -
      assume i: "i = nat (row p)"
      have "grid_at (cells s') i j = (if j < length r1 then (r1[nat (col p) := Some c]) ! j else None)"
        using len i by (simp add: s'_def grid_at_def)
      also have "\<dots> = (if j = nat (col p) then Some c else grid_at (cells s) i j)"
      proof (cases "j = nat (col p)")
        case True
        then show ?thesis using lr by simp
      next
        case False
        show ?thesis
        proof (cases "j < length r")
          case True
          then show ?thesis using False r_at(1) [OF True] i
            by (auto simp: r1_def vec_resize_def nth_append)
        next
          case False2: False
          then have "grid_at (cells s) i j = None" using r_at(2) [of j] i by blast
          then show ?thesis using False False2
            by (auto simp: r1_def vec_resize_def nth_append)
        qed
      qed
      finally show ?thesis .
    qed
    show "grid_at (cells s') i j =
              (if i = nat (row p) \<and> j = nat (col p) then Some c else grid_at (cells s) i j)"
      using rows_same same_row by (cases "i = nat (row p)") simp_all
  qed
  have "length (cells s') = max (length (cells s)) (nat (row p) + 1)"
    using len by (simp add: s'_def)
  with eq g show ?thesis by (intro exI [of _ s']) (simp add: s'_def)
qed

lemma update_cell_obs:
  "graph (update_cell s p f) = graph s"
  "printable_size (update_cell s p f) = printable_size s"
  "length (cells (update_cell s p f)) = length (cells s)"
  "grid_at (cells (update_cell s p f)) i j =
     (if i = nat (row p) \<and> j = nat (col p) then map_option f (grid_at (cells s) i j)
      else grid_at (cells s) i j)"
  by (auto simp: update_cell_def grid_at_update) (auto simp: grid_at_def)

declare scan_cols.simps [simp del] scan_rows.simps [simp del]

lemma scan_rows_in_range:
  "scan_rows cs r ncols = Inr x \<Longrightarrow> r < int (length cs)"
  by (subst (asm) scan_rows.simps) (auto simp: vec_at_def split: if_splits option.splits)

lemma ClearCell_Returned:
  assumes "ClearCell s p = Returned s'"
  shows "graph s' = graph s"
    and "length (cells s') = length (cells s)"
    and "\<And>i j. grid_at (cells s') i j =
           (if i = nat (row p) \<and> j = nat (col p) then None else grid_at (cells s) i j)"
proof -
  from assms have v: "IsValid p" by (auto simp: ClearCell_def split: if_splits)
  define s1 where "s1 = s\<lparr>cells := (cells s)[nat (row p) := (cells s ! nat (row p))[nat (col p) := None]]\<rparr>"
  have g1: "\<And>i j. grid_at (cells s1) i j =
           (if i = nat (row p) \<and> j = nat (col p) then None else grid_at (cells s) i j)"
    by (auto simp: s1_def grid_at_update) (auto simp: grid_at_def)
  from assms have "(s' = s \<and> grid_at (cells s) (nat (row p)) (nat (col p)) = None) \<or>
      (cells s' = cells s1 \<and> graph s' = graph s)"
    using v
    by (auto simp: ClearCell_def Let_def s1_def grid_at_def IsValid_def
        split: if_splits sum.splits option.splits)
  then show "graph s' = graph s" by auto
  from \<open>_ \<or> _\<close> show "length (cells s') = length (cells s)" by (auto simp: s1_def)
  fix i j
  from \<open>_ \<or> _\<close> show "grid_at (cells s') i j =
           (if i = nat (row p) \<and> j = nat (col p) then None else grid_at (cells s) i j)"
    using g1 by auto
qed

lemma ClearCell_Thrown: "ClearCell s p = Thrown e s' \<Longrightarrow> s' = s \<and> \<not> IsValid p"
  by (auto simp: ClearCell_def Let_def split: if_splits sum.splits option.splits)

lemma clear_cells_Returned:
  "clear_cells s ps = Returned s' \<Longrightarrow>
     graph s' = graph s \<and>
     (\<forall>i j. grid_at (cells s') i j = None \<or> grid_at (cells s') i j = grid_at (cells s) i j)"
proof (induction ps arbitrary: s)
  case Nil
  then show ?case by simp
next
  case (Cons p ps)
  then obtain s1 where s1: "ClearCell s p = Returned s1" and r: "clear_cells s1 ps = Returned s'"
    by (auto split: outcome.splits)
  from Cons.IH [OF r] ClearCell_Returned [OF s1] show ?case by (metis (full_types))
qed

lemma caches_only_refl: "caches_only s s"
  by (simp add: caches_only_def)

lemma caches_only_trans: "caches_only s s1 \<Longrightarrow> caches_only s1 s2 \<Longrightarrow> caches_only s s2"
  by (simp add: caches_only_def)

lemma caches_reset_refl: "caches_reset s s"
  by (simp add: caches_reset_def caches_only_refl)

lemma caches_reset_trans:
  assumes "caches_reset s s1" and "caches_reset s1 s2"
  shows "caches_reset s s2"
  unfolding caches_reset_def
proof (intro conjI allI impI)
  show "caches_only s s2"
    using assms by (auto simp: caches_reset_def intro: caches_only_trans)
next
  fix i j c' assume c': "grid_at (cells s2) i j = Some c'"
  with assms(2) have "cache c' = None \<or> grid_at (cells s1) i j = Some c'"
    by (simp add: caches_reset_def)
  then show "cache c' = None \<or> grid_at (cells s) i j = Some c'"
    using assms(1) by (auto simp: caches_reset_def)
qed

lemma update_cell_caches_only:
  assumes "\<And>c. impl (f c) = impl c"
  shows "caches_only s (update_cell s p f)"
  unfolding caches_only_def
  by (simp add: update_cell_obs option.map_comp comp_def assms)

lemma reseter_caches_reset: "reseter s p = Inr s' \<Longrightarrow> caches_reset s s'"
proof -
  assume "reseter s p = Inr s'"
  then have s': "s' = update_cell s p Cell_ResetCache"
    by (auto simp: reseter_def split: sum.splits option.splits)
  have "caches_only s s'"
    unfolding s' by (rule update_cell_caches_only) (simp add: Cell_ResetCache_def)
  moreover have "\<And>i j c'. grid_at (cells s') i j = Some c' \<Longrightarrow>
        cache c' = None \<or> grid_at (cells s) i j = Some c'"
    unfolding s' by (auto simp: update_cell_obs Cell_ResetCache_def split: if_splits)
  ultimately show ?thesis by (simp add: caches_reset_def)
qed

lemma reset_caches_reset:
  "reset_node fuel g s current verified = Inr (s', v') \<Longrightarrow> caches_reset s s'"
  "reset_loop fuel g s nodes verified = Inr (s', v') \<Longrightarrow> caches_reset s s'"
proof (induction fuel g s current verified and fuel g s nodes verified
    arbitrary: s' v' and s' v' rule: reset_node_reset_loop.induct)
  case (1 g s current verified)
  then show ?case by simp
next
  case (2 fuel g s current verified)
  note a = "2.prems"
  then obtain n where n: "g current = Some n" by (cases "g current") simp_all
  with a obtain s1 where s1: "reseter s (cell n) = Inr s1"
    by (cases "reseter s (cell n)") simp_all
  with a n have l: "reset_loop fuel g s1 (backward n) verified = Inr (s', v')" by simp
  from "2.IH" [OF n s1 l] have "caches_reset s1 s'" .
  with reseter_caches_reset [OF s1] show ?case by (rule caches_reset_trans)
next
  case (3 fuel g s verified)
  then show ?case by (auto simp: caches_reset_refl)
next
  case (4 fuel g s next_node rest verified)
  note a = "4.prems"
  show ?case
  proof (cases "next_node \<in> set verified")
    case True
    with a "4.IH"(1) show ?thesis by simp
  next
    case False
    with a obtain s1 v1 where r: "reset_node fuel g s next_node verified = Inr (s1, v1)"
      by (cases "reset_node fuel g s next_node verified") auto
    with a False have l: "reset_loop fuel g s1 rest (uset_insert next_node v1) = Inr (s', v')"
      by simp
    from "4.IH"(2) [OF False r] have c1: "caches_reset s s1" .
    from "4.IH"(3) [OF False r refl l] have "caches_reset s1 s'" .
    with c1 show ?thesis by (rule caches_reset_trans)
  qed
qed

lemma ResetCache_caches_reset: "ResetCache fuel s c = Inr s' \<Longrightarrow> caches_reset s s'"
  using reset_caches_reset(1) [of fuel "graph s" s c "[]" s']
  by (auto simp: ResetCache_def split: if_splits sum.splits)

lemma materialize_Returned:
  "materialize s pos news acc = Returned (s1, ne) \<Longrightarrow>
     graph s1 = graph s \<and> pos \<notin> set news \<and> (\<forall>r\<in>set news. IsValid r) \<and>
     rows (printable_size s) \<le> rows (printable_size s1) \<and>
     cols (printable_size s) \<le> cols (printable_size s1) \<and>
     (\<forall>r\<in>set news. slot s r = None \<longrightarrow>
        row r < rows (printable_size s1) \<and> col r < cols (printable_size s1)) \<and>
     (\<forall>i j. grid_at (cells s1) i j =
        (if grid_at (cells s) i j = None \<and> (\<exists>r\<in>set news. i = nat (row r) \<and> j = nat (col r))
         then Some new_Cell else grid_at (cells s) i j))"
proof (induction news arbitrary: s acc)
  case Nil
  then show ?case by simp
next
  case (Cons n rest)
  from Cons.prems have np: "n \<noteq> pos" by (auto split: if_splits)
  from Cons.prems np have v: "IsValid n"
    by (cases "IsValid n") (simp_all add: GetCell_invalid)
  note gc = GetCell_valid [OF v, of s]
  show ?case
  proof (cases "slot s n")
    case (Some c)
    with Cons.prems np gc have "materialize s pos rest acc = Returned (s1, ne)" by simp
    from Cons.IH [OF this] have ih: "graph s1 = graph s" "pos \<notin> set rest" "\<forall>r\<in>set rest. IsValid r"
      "rows (printable_size s) \<le> rows (printable_size s1)"
      "cols (printable_size s) \<le> cols (printable_size s1)"
      "\<forall>r\<in>set rest. slot s r = None \<longrightarrow>
        row r < rows (printable_size s1) \<and> col r < cols (printable_size s1)"
      "\<And>i j. grid_at (cells s1) i j =
        (if grid_at (cells s) i j = None \<and> (\<exists>r\<in>set rest. i = nat (row r) \<and> j = nat (col r))
         then Some new_Cell else grid_at (cells s) i j)"
      by simp_all
    have "\<And>i j. grid_at (cells s1) i j =
        (if grid_at (cells s) i j = None \<and> (\<exists>r\<in>set (n # rest). i = nat (row r) \<and> j = nat (col r))
         then Some new_Cell else grid_at (cells s) i j)"
      using ih(7) Some by (auto simp: slot_def)
    with ih(1-6) np v Some show ?thesis by simp
  next
    case None
    from PlaceCell_nonneg [OF IsValid_nonneg [OF v], of s new_Cell]
    obtain s2 where p: "PlaceCell s n new_Cell = Inr s2" and g2: "graph s2 = graph s"
      and sz: "printable_size s2 = \<lparr>rows = max (rows (printable_size s)) (row n + 1),
                                 cols = max (cols (printable_size s)) (col n + 1)\<rparr>"
      and gr: "\<And>i j. grid_at (cells s2) i j =
              (if i = nat (row n) \<and> j = nat (col n) then Some new_Cell else grid_at (cells s) i j)"
      by blast
    from Cons.prems np gc None p
    have "materialize s2 pos rest (acc @ [n]) = Returned (s1, ne)" by simp
    from Cons.IH [OF this] have ih: "graph s1 = graph s2" "pos \<notin> set rest" "\<forall>r\<in>set rest. IsValid r"
      "rows (printable_size s2) \<le> rows (printable_size s1)"
      "cols (printable_size s2) \<le> cols (printable_size s1)"
      "\<forall>r\<in>set rest. slot s2 r = None \<longrightarrow>
        row r < rows (printable_size s1) \<and> col r < cols (printable_size s1)"
      "\<And>i j. grid_at (cells s1) i j =
        (if grid_at (cells s2) i j = None \<and> (\<exists>r\<in>set rest. i = nat (row r) \<and> j = nat (col r))
         then Some new_Cell else grid_at (cells s2) i j)"
      by simp_all
    have a: "rows (printable_size s) \<le> rows (printable_size s1)"
      "cols (printable_size s) \<le> cols (printable_size s1)"
      "row n < rows (printable_size s1)" "col n < cols (printable_size s1)"
      using ih(4,5) sz by simp_all
    have b: "\<forall>r\<in>set (n # rest). slot s r = None \<longrightarrow>
        row r < rows (printable_size s1) \<and> col r < cols (printable_size s1)"
    proof (intro ballI impI)
      fix r assume r: "r \<in> set (n # rest)" and e: "slot s r = None"
      show "row r < rows (printable_size s1) \<and> col r < cols (printable_size s1)"
      proof (cases "r = n")
        case True
        then show ?thesis using a by simp
      next
        case False
        with r have rr: "r \<in> set rest" by simp
        with ih(3) have "IsValid r" by simp
        with False v have "\<not> (nat (row r) = nat (row n) \<and> nat (col r) = nat (col n))"
          using nonneg_eq_iff [of r n] by (simp add: IsValid_nonneg)
        with e have "slot s2 r = None" by (auto simp: slot_def gr)
        with ih(6) rr show ?thesis by simp
      qed
    qed
    have c: "\<And>i j. grid_at (cells s1) i j =
        (if grid_at (cells s) i j = None \<and> (\<exists>r\<in>set (n # rest). i = nat (row r) \<and> j = nat (col r))
         then Some new_Cell else grid_at (cells s) i j)"
      using ih(7) gr None by (auto simp: slot_def)
    from ih(1-3) g2 np v a b c show ?thesis by simp
  qed
qed

lemma rollback_not_Returned: "rollback s pos ne olds \<noteq> Returned s'"
  by (simp add: rollback_def split: outcome.splits sum.splits)

lemma place_new_cell_Returned:
  "place_new_cell s pos c = Returned s' \<Longrightarrow> PlaceCell s pos c = Inr s'"
  by (simp add: place_new_cell_def split: sum.splits)

lemma install_Returned:
  assumes "install fuel s pos nc news ne = Returned s'"
  shows "\<exists>olds g1 g2 s3.
           old_dependencies s pos (Contains (graph s) pos) = Inr olds \<and>
           remove_dependencies (graph s) pos olds = Inr g1 \<and>
           add_dependencies (AddCell g1 pos) pos news = Inr g2 \<and>
           (if Contains (graph s) pos
            then CheckCyclicDependencies fuel g2 pos = Inr True \<and>
                 ResetCache fuel (s\<lparr>graph := g2\<rparr>) pos = Inr s3
            else s3 = s\<lparr>graph := g2\<rparr>) \<and>
           PlaceCell s3 pos nc = Inr s'"
proof -
  obtain olds where o: "old_dependencies s pos (Contains (graph s) pos) = Inr olds"
    using assms by (cases "old_dependencies s pos (Contains (graph s) pos)")
      (simp_all add: install_def Let_def)
  obtain g1 where g1: "remove_dependencies (graph s) pos olds = Inr g1"
    using assms o by (cases "remove_dependencies (graph s) pos olds")
      (simp_all add: install_def Let_def)
  obtain g2 where g2: "add_dependencies (AddCell g1 pos) pos news = Inr g2"
    using assms o g1 by (cases "add_dependencies (AddCell g1 pos) pos news")
      (simp_all add: install_def Let_def)
  show ?thesis
  proof (cases "Contains (graph s) pos")
    case False
    with assms o g1 g2 have "place_new_cell (s\<lparr>graph := g2\<rparr>) pos nc = Returned s'"
      by (simp add: install_def Let_def)
    with o g1 g2 False show ?thesis by (auto dest: place_new_cell_Returned)
  next
    case True
    obtain ok where ok: "CheckCyclicDependencies fuel g2 pos = Inr ok"
      using assms o g1 g2 True by (cases "CheckCyclicDependencies fuel g2 pos")
        (simp_all add: install_def Let_def)
    have okT: "ok"
      using assms o g1 g2 True ok rollback_not_Returned
      by (cases ok) (simp_all add: install_def Let_def)
    obtain s3 where s3: "ResetCache fuel (s\<lparr>graph := g2\<rparr>) pos = Inr s3"
      using assms o g1 g2 True ok okT by (cases "ResetCache fuel (s\<lparr>graph := g2\<rparr>) pos")
        (simp_all add: install_def Let_def)
    with assms o g1 g2 True ok okT have "place_new_cell s3 pos nc = Returned s'"
      by (simp add: install_def Let_def)
    with o g1 g2 True ok okT s3 show ?thesis by (auto dest: place_new_cell_Returned)
  qed
qed

lemma SetCell_Returned:
  assumes "SetCell parse fuel s pos text = Returned s'"
  shows "\<exists>nc s1 ne. IsValid pos \<and> Cell_Set parse text new_Cell = Some nc \<and>
           materialize s pos (Cell_GetReferencedCells nc) [] = Returned (s1, ne) \<and>
           install fuel s1 pos nc (Cell_GetReferencedCells nc) ne = Returned s'"
proof -
  from assms have v: "IsValid pos" by (auto simp: SetCell_def split: if_splits)
  obtain nc where nc: "Cell_Set parse text new_Cell = Some nc"
    using assms v by (cases "Cell_Set parse text new_Cell") (simp_all add: SetCell_def)
  obtain s1 ne where m: "materialize s pos (Cell_GetReferencedCells nc) [] = Returned (s1, ne)"
    using assms v nc
    by (cases "materialize s pos (Cell_GetReferencedCells nc) []")
      (auto simp: SetCell_def Let_def)
  with assms v nc show ?thesis by (simp add: SetCell_def Let_def)
qed

lemma returned_obtain: "returned x \<Longrightarrow> \<exists>y. x = Returned y"
  by (cases x) simp_all

lemma SetCell_Returned_slot:
  assumes "SetCell parse fuel s pos text = Returned s'"
    and "Cell_Set parse text new_Cell = Some nc"
  shows "IsValid pos" and "slot s' pos = Some nc"
proof -
  from SetCell_Returned [OF assms(1)] assms(2) obtain s1 ne where
    v: "IsValid pos" and
    i: "install fuel s1 pos nc (Cell_GetReferencedCells nc) ne = Returned s'"
    by auto
  from install_Returned [OF i] obtain s3 where p: "PlaceCell s3 pos nc = Inr s'" by blast
  from PlaceCell_nonneg [OF IsValid_nonneg [OF v], of s3 nc] p
  show "slot s' pos = Some nc" by (auto simp: slot_def)
  show "IsValid pos" by (rule v)
qed

text \<open>
  Claim C8. After a successful \<^verbatim>\<open>SetCell(p, t)\<close> the text of the cell at \<open>p\<close> is the
  canonical text of \<open>t\<close>: the empty string when \<open>t\<close> is empty, the AST's printed form behind
  an equals sign when \<open>t\<close> begins with the equals sign and is longer than one character, and
  \<open>t\<close> itself, escape sign included, otherwise.
\<close>

theorem SetCell_installs_canonical_text:
  assumes "SetCell parse fuel s pos text = Returned s'"
  shows "GetText s' pos = Returned
           (if text = [] then []
            else if hd text = CHR ''='' \<and> length text > 1
              then CHR ''='' # PrintFormula (the (parse (tl text)))
            else text)"
proof -
  from SetCell_Returned [OF assms] obtain nc where
    nc: "Cell_Set parse text new_Cell = Some nc" by blast
  note sl = SetCell_Returned_slot [OF assms nc]
  have "Cell_GetText nc =
           (if text = [] then []
            else if hd text = CHR ''='' \<and> length text > 1
              then CHR ''='' # PrintFormula (the (parse (tl text)))
            else text)"
    using nc
    by (auto simp: Cell_Set_def Cell_GetText_def new_Cell_def FORMULA_SIGN_def
        split: if_splits option.splits)
  then show ?thesis
    using sl by (simp add: GetText_def GetCell_valid)
qed

theorem SetCell_installs_canonical_text_witness:
  "(\<exists>s'. SetCell example_parse 10 new_Sheet B2 ''=A1 + 3'' = Returned s' \<and>
         GetText s' B2 = Returned ''=A1+3'') \<and>
   (\<exists>s'. SetCell example_parse 10 new_Sheet B2 (CHR 0x27 # ''=1+2'') = Returned s' \<and>
         GetText s' B2 = Returned (CHR 0x27 # ''=1+2'')) \<and>
   (\<exists>s'. SetCell example_parse 10 new_Sheet B2 [] = Returned s' \<and>
         GetText s' B2 = Returned [])"
proof (intro conjI)
  have "returned (SetCell example_parse 10 new_Sheet B2 ''=A1 + 3'')" by code_simp
  then obtain s' where s': "SetCell example_parse 10 new_Sheet B2 ''=A1 + 3'' = Returned s'"
    by (auto dest: returned_obtain)
  from SetCell_installs_canonical_text [OF s']
  have "GetText s' B2 = Returned ''=A1+3''"
    by (simp add: example_parse_def ref_plus_number_ast_def)
  with s' show "\<exists>s'. SetCell example_parse 10 new_Sheet B2 ''=A1 + 3'' = Returned s' \<and>
         GetText s' B2 = Returned ''=A1+3''" by blast
next
  have "returned (SetCell example_parse 10 new_Sheet B2 (CHR 0x27 # ''=1+2''))" by code_simp
  then obtain s' where s': "SetCell example_parse 10 new_Sheet B2 (CHR 0x27 # ''=1+2'') = Returned s'"
    by (auto dest: returned_obtain)
  from SetCell_installs_canonical_text [OF s']
  have "GetText s' B2 = Returned (CHR 0x27 # ''=1+2'')" by simp
  with s' show "\<exists>s'. SetCell example_parse 10 new_Sheet B2 (CHR 0x27 # ''=1+2'') = Returned s' \<and>
         GetText s' B2 = Returned (CHR 0x27 # ''=1+2'')" by blast
next
  have "returned (SetCell example_parse 10 new_Sheet B2 [])" by code_simp
  then obtain s' where s': "SetCell example_parse 10 new_Sheet B2 [] = Returned s'"
    by (auto dest: returned_obtain)
  from SetCell_installs_canonical_text [OF s']
  have "GetText s' B2 = Returned []" by simp
  with s' show "\<exists>s'. SetCell example_parse 10 new_Sheet B2 [] = Returned s' \<and>
         GetText s' B2 = Returned []" by blast
qed



lemma store_cache_grid:
  "grid_at (cells (store_cache s p v)) i j =
     (if i = nat (row p) \<and> j = nat (col p)
      then map_option (\<lambda>c. c\<lparr>cache := Some v\<rparr>) (grid_at (cells s) i j)
      else grid_at (cells s) i j)"
  by (simp add: store_cache_def update_cell_obs)


section \<open>Cached values of Text and Empty cells\<close>

lemma GetConcreteCell_Some:
  "GetConcreteCell s p = Inr (Some c) \<Longrightarrow> nonneg p \<and> slot s p = Some c"
  by (auto simp: GetConcreteCell_def vec_at_def slot_def grid_at_def nonneg_def
      split: if_splits)

lemma caches_agree_graph [simp]: "caches_agree (s\<lparr>graph := g\<rparr>) = caches_agree s"
  by (simp add: caches_agree_def)

lemma PlaceCell_caches_agree:
  assumes "caches_agree s" and "cache_agrees c" and "nonneg p" and "PlaceCell s p c = Inr s'"
  shows "caches_agree s'"
  using PlaceCell_nonneg [OF assms(3), of s c] assms(1,2,4)
  by (auto simp: caches_agree_def split: if_splits)

lemma new_Cell_agrees: "cache_agrees new_Cell"
  by (simp add: cache_agrees_def new_Cell_def)

lemma materialize_caches_agree:
  "caches_agree s \<Longrightarrow>
   materialize s pos news acc = Returned (s', ne) \<or> materialize s pos news acc = Thrown e s'
   \<Longrightarrow> caches_agree s'"
proof (induction news arbitrary: s acc)
  case Nil
  then show ?case by simp
next
  case (Cons n rest)
  show ?case
  proof (cases "n = pos")
    case True
    with Cons.prems show ?thesis by simp
  next
    case False
    show ?thesis
    proof (cases "IsValid n")
      case inv: False
      with Cons.prems False show ?thesis by (simp add: GetCell_invalid)
    next
      case True
      note gc = GetCell_valid [OF True, of s]
      show ?thesis
      proof (cases "slot s n")
        case (Some c)
        with Cons.prems False gc have
          "materialize s pos rest acc = Returned (s', ne) \<or> materialize s pos rest acc = Thrown e s'"
          by simp
        from Cons.IH [OF Cons.prems(1) this] show ?thesis .
      next
        case None
        from PlaceCell_nonneg [OF IsValid_nonneg [OF True], of s new_Cell]
        obtain s2 where p: "PlaceCell s n new_Cell = Inr s2" by blast
        have a: "caches_agree s2"
          by (rule PlaceCell_caches_agree [OF Cons.prems(1) new_Cell_agrees IsValid_nonneg [OF True] p])
        from Cons.prems False gc None p have
          "materialize s2 pos rest (acc @ [n]) = Returned (s', ne) \<or>
           materialize s2 pos rest (acc @ [n]) = Thrown e s'"
          by simp
        from Cons.IH [OF a this] show ?thesis .
      qed
    qed
  qed
qed

lemma ClearCell_caches_agree:
  "caches_agree s \<Longrightarrow> ClearCell s p = Returned s' \<or> ClearCell s p = Thrown e s' \<Longrightarrow> caches_agree s'"
proof (erule disjE)
  assume a: "caches_agree s" and c: "ClearCell s p = Returned s'"
  show "caches_agree s'"
    unfolding caches_agree_def using a ClearCell_Returned(3) [OF c]
    by (auto simp: caches_agree_def split: if_splits)
next
  assume a: "caches_agree s" and c: "ClearCell s p = Thrown e s'"
  with ClearCell_Thrown [OF c] show "caches_agree s'" by simp
qed

lemma clear_cells_caches_agree:
  "caches_agree s \<Longrightarrow> clear_cells s ps = Returned s' \<or> clear_cells s ps = Thrown e s'
   \<Longrightarrow> caches_agree s'"
proof (induction ps arbitrary: s)
  case Nil
  then show ?case by simp
next
  case (Cons p ps)
  show ?case
  proof (cases "ClearCell s p")
    case (Returned s1)
    with Cons.prems have "clear_cells s1 ps = Returned s' \<or> clear_cells s1 ps = Thrown e s'"
      by simp
    moreover have "caches_agree s1"
      using ClearCell_caches_agree [OF Cons.prems(1)] Returned by blast
    ultimately show ?thesis by (rule Cons.IH [rotated])
  next
    case (Thrown e1 s1)
    with Cons.prems have "s' = s1" by simp
    with ClearCell_caches_agree [OF Cons.prems(1)] Thrown show ?thesis by blast
  next
    case (Crashed x)
    with Cons.prems show ?thesis by simp
  qed
qed

lemma caches_reset_caches_agree:
  assumes "caches_reset s s'" and "caches_agree s"
  shows "caches_agree s'"
  unfolding caches_agree_def
proof (intro allI impI)
  fix i j c' assume c': "grid_at (cells s') i j = Some c'"
  with assms(1) have "cache c' = None \<or> grid_at (cells s) i j = Some c'"
    by (simp add: caches_reset_def)
  then show "cache_agrees c'"
  proof
    assume "cache c' = None"
    then show ?thesis by (simp add: cache_agrees_def split: Impl.splits)
  next
    assume "grid_at (cells s) i j = Some c'"
    with assms(2) show ?thesis by (simp add: caches_agree_def)
  qed
qed

lemma Cell_Set_agrees: "Cell_Set parse text new_Cell = Some nc \<Longrightarrow> cache_agrees nc"
  by (auto simp: Cell_Set_def new_Cell_def cache_agrees_def split: if_splits option.splits)

lemma rollback_caches_agree:
  assumes "caches_agree s" and "rollback s pos ne olds = Thrown e s'"
  shows "caches_agree s'"
proof (cases "clear_cells s ne")
  case (Returned s1)
  with clear_cells_caches_agree [OF assms(1)] have "caches_agree s1" by blast
  with assms(2) Returned show ?thesis
    by (auto simp: rollback_def split: sum.splits)
next
  case (Thrown e1 s1)
  with clear_cells_caches_agree [OF assms(1)] have "caches_agree s1" by blast
  with assms(2) Thrown show ?thesis by (simp add: rollback_def)
next
  case (Crashed x)
  with assms(2) show ?thesis by (simp add: rollback_def)
qed

lemma place_new_cell_not_Thrown: "place_new_cell s pos c \<noteq> Thrown e s'"
  by (simp add: place_new_cell_def split: sum.splits)

lemma install_Thrown:
  assumes "install fuel s pos nc news ne = Thrown e s'"
  shows "\<exists>g2 olds. rollback (s\<lparr>graph := g2\<rparr>) pos ne olds = Thrown e s'"
proof -
  obtain olds where o: "old_dependencies s pos (Contains (graph s) pos) = Inr olds"
    using assms by (cases "old_dependencies s pos (Contains (graph s) pos)")
      (simp_all add: install_def Let_def)
  obtain g1 where g1: "remove_dependencies (graph s) pos olds = Inr g1"
    using assms o by (cases "remove_dependencies (graph s) pos olds")
      (simp_all add: install_def Let_def)
  obtain g2 where g2: "add_dependencies (AddCell g1 pos) pos news = Inr g2"
    using assms o g1 by (cases "add_dependencies (AddCell g1 pos) pos news")
      (simp_all add: install_def Let_def)
  have c: "Contains (graph s) pos"
    using assms o g1 g2 place_new_cell_not_Thrown
    by (cases "Contains (graph s) pos") (simp_all add: install_def Let_def)
  obtain ok where ok: "CheckCyclicDependencies fuel g2 pos = Inr ok"
    using assms o g1 g2 c by (cases "CheckCyclicDependencies fuel g2 pos")
      (simp_all add: install_def Let_def)
  have "\<not> ok"
  proof
    assume ok
    with assms o g1 g2 c ok place_new_cell_not_Thrown show False
      by (cases "ResetCache fuel (s\<lparr>graph := g2\<rparr>) pos") (simp_all add: install_def Let_def)
  qed
  with assms o g1 g2 c ok have "rollback (s\<lparr>graph := g2\<rparr>) pos ne olds = Thrown e s'"
    by (simp add: install_def Let_def)
  then show ?thesis by blast
qed

lemma SetCell_caches_agree:
  assumes "caches_agree s"
    and "SetCell parse fuel s pos text = Returned s' \<or> SetCell parse fuel s pos text = Thrown e s'"
  shows "caches_agree s'"
  using assms(2)
proof
  assume r: "SetCell parse fuel s pos text = Returned s'"
  from SetCell_Returned [OF r] obtain nc s1 ne where
    v: "IsValid pos" and nc: "Cell_Set parse text new_Cell = Some nc" and
    m: "materialize s pos (Cell_GetReferencedCells nc) [] = Returned (s1, ne)" and
    i: "install fuel s1 pos nc (Cell_GetReferencedCells nc) ne = Returned s'"
    by blast
  from materialize_caches_agree [OF assms(1)] m have a1: "caches_agree s1" by blast
  from install_Returned [OF i] obtain g2 s3 where
    c: "if Contains (graph s1) pos
        then CheckCyclicDependencies fuel g2 pos = Inr True \<and>
             ResetCache fuel (s1\<lparr>graph := g2\<rparr>) pos = Inr s3
        else s3 = s1\<lparr>graph := g2\<rparr>"
    and p: "PlaceCell s3 pos nc = Inr s'" by blast
  have "caches_reset (s1\<lparr>graph := g2\<rparr>) s3"
    using c ResetCache_caches_reset by (auto simp: caches_reset_refl split: if_splits)
  from caches_reset_caches_agree [OF this] a1 have "caches_agree s3" by simp
  from PlaceCell_caches_agree [OF this Cell_Set_agrees [OF nc] IsValid_nonneg [OF v] p]
  show ?thesis .
next
  assume t: "SetCell parse fuel s pos text = Thrown e s'"
  show ?thesis
  proof (cases "IsValid pos")
    case False
    with t assms(1) show ?thesis by (simp add: SetCell_def)
  next
    case True
    show ?thesis
    proof (cases "Cell_Set parse text new_Cell")
      case None
      with t True assms(1) show ?thesis by (simp add: SetCell_def)
    next
      case (Some nc)
      show ?thesis
      proof (cases "materialize s pos (Cell_GetReferencedCells nc) []")
        case (Returned x)
        obtain s1 ne where x: "x = (s1, ne)" by (cases x)
        from materialize_caches_agree [OF assms(1)] Returned x have a1: "caches_agree s1" by blast
        from t True Some Returned x
        have "install fuel s1 pos nc (Cell_GetReferencedCells nc) ne = Thrown e s'"
          by (simp add: SetCell_def Let_def)
        from install_Thrown [OF this] obtain g2 olds where
          "rollback (s1\<lparr>graph := g2\<rparr>) pos ne olds = Thrown e s'" by blast
        from rollback_caches_agree [OF _ this] a1 show ?thesis by simp
      next
        case (Thrown e1 s1)
        with t True Some have "s' = s1" by (simp add: SetCell_def Let_def)
        with materialize_caches_agree [OF assms(1)] Thrown show ?thesis by blast
      next
        case (Crashed x)
        with t True Some show ?thesis by (simp add: SetCell_def Let_def)
      qed
    qed
  qed
qed

lemma store_cache_caches_only: "caches_only s (store_cache s p v)"
  unfolding store_cache_def by (rule update_cell_caches_only) simp

lemma evaluation_caches_only:
  "ends_in (cell_value fuel s p) s' \<Longrightarrow> caches_only s s'"
  "ends_in (run_ast fuel s i) s' \<Longrightarrow> caches_only s s'"
proof (induction fuel s p and fuel s i arbitrary: s' and s' rule: cell_value_run_ast.induct)
  case (1 s p)
  then show ?case by simp
next
  case (2 fuel s p)
  note a = "2.prems"
  then obtain c where c: "GetConcreteCell s p = Inr (Some c)"
    by (cases "GetConcreteCell s p") (auto split: option.splits)
  show ?case
  proof (cases "cache c")
    case (Some v)
    with a c show ?thesis by (simp add: caches_only_refl)
  next
    case None
    show ?thesis
    proof (cases "impl c")
      case EmptyImpl
      with a c None show ?thesis by (auto simp: store_cache_caches_only)
    next
      case (TextImpl t)
      with a c None show ?thesis by (auto simp: store_cache_caches_only)
    next
      case (FormulaImpl f)
      show ?thesis
      proof (cases "run_ast fuel s (Execute f)")
        case (Returned x)
        obtain fv s1 where x: "x = (fv, s1)" by (cases x)
        from "2.IH" [OF c refl None FormulaImpl, of s1] Returned x have "caches_only s s1" by simp
        moreover from a c None FormulaImpl Returned x
        have "s' = store_cache s1 p (to_cell_value fv)" by simp
        ultimately show ?thesis
          using store_cache_caches_only caches_only_trans by blast
      next
        case (Thrown e s1)
        from "2.IH" [OF c refl None FormulaImpl, of s1] Thrown have "caches_only s s1" by simp
        with a c None FormulaImpl Thrown show ?thesis by simp
      next
        case (Crashed x)
        with a c None FormulaImpl show ?thesis by simp
      qed
    qed
  qed
next
  case (3 s i)
  then show ?case by simp
next
  case (4 fuel s fv)
  then show ?case by (simp add: caches_only_refl)
next
  case (5 fuel s p k)
  note a = "5.prems"
  show ?case
  proof (cases "GetCell s p")
    case (Returned x)
    show ?thesis
    proof (cases x)
      case None
      with a Returned have "ends_in (run_ast fuel s (k (VDouble 0))) s'" by simp
      from "5.IH"(1) [OF Returned None this] show ?thesis .
    next
      case (Some c)
      show ?thesis
      proof (cases "cell_value fuel s p")
        case r: (Returned y)
        obtain v s1 where y: "y = (v, s1)" by (cases y)
        from "5.IH"(2) [OF Returned Some, of s1] r y have c1: "caches_only s s1" by simp
        from a Returned Some r y have "ends_in (run_ast fuel s1 (k v)) s'" by simp
        from "5.IH"(3) [OF Returned Some r y [symmetric] this] have "caches_only s1 s'" .
        with c1 show ?thesis by (rule caches_only_trans)
      next
        case (Thrown e s1)
        from "5.IH"(2) [OF Returned Some, of s1] Thrown have "caches_only s s1" by simp
        with a Returned Some Thrown show ?thesis by simp
      next
        case (Crashed z)
        with a Returned Some show ?thesis by simp
      qed
    qed
  next
    case (Thrown e s1)
    then have "s1 = s" by (auto simp: GetCell_def split: if_splits sum.splits)
    with a Thrown show ?thesis by (simp add: caches_only_refl)
  next
    case (Crashed z)
    with a show ?thesis by simp
  qed
qed

lemma store_cache_caches_agree:
  assumes "caches_agree s"
    and "\<And>c. slot s p = Some c \<Longrightarrow> cache_agrees (c\<lparr>cache := Some v\<rparr>)"
  shows "caches_agree (store_cache s p v)"
  unfolding caches_agree_def
proof (intro allI impI)
  fix i j c assume c: "grid_at (cells (store_cache s p v)) i j = Some c"
  show "cache_agrees c"
  proof (cases "i = nat (row p) \<and> j = nat (col p)")
    case True
    with c obtain c0 where "grid_at (cells s) i j = Some c0" "c = c0\<lparr>cache := Some v\<rparr>"
      by (auto simp: store_cache_grid)
    with True assms(2) [of c0] show ?thesis by (simp add: slot_def)
  next
    case False
    with c have "grid_at (cells s) i j = Some c" by (simp add: store_cache_grid)
    with assms(1) show ?thesis by (simp add: caches_agree_def)
  qed
qed

lemma evaluation_caches_agree:
  "ends_in (cell_value fuel s p) s' \<Longrightarrow> caches_agree s \<Longrightarrow> caches_agree s'"
  "ends_in (run_ast fuel s i) s' \<Longrightarrow> caches_agree s \<Longrightarrow> caches_agree s'"
proof (induction fuel s p and fuel s i arbitrary: s' and s' rule: cell_value_run_ast.induct)
  case (1 s p)
  then show ?case by simp
next
  case (2 fuel s p)
  note a = "2.prems"(1) and ag = "2.prems"(2)
  from a obtain c where c: "GetConcreteCell s p = Inr (Some c)"
    by (cases "GetConcreteCell s p") (auto split: option.splits)
  note sl = GetConcreteCell_Some [OF c]
  show ?case
  proof (cases "cache c")
    case (Some v)
    with a c ag show ?thesis by simp
  next
    case None
    show ?thesis
    proof (cases "impl c")
      case EmptyImpl
      with a c None have s': "s' = store_cache s p (VString [])" by simp
      show ?thesis unfolding s'
        by (rule store_cache_caches_agree [OF ag]) (use sl EmptyImpl in \<open>simp add: cache_agrees_def\<close>)
    next
      case (TextImpl t)
      with a c None have s': "s' = store_cache s p (TextImpl_GetValue t)" by simp
      show ?thesis unfolding s'
        by (rule store_cache_caches_agree [OF ag]) (use sl TextImpl in \<open>simp add: cache_agrees_def\<close>)
    next
      case (FormulaImpl f)
      show ?thesis
      proof (cases "run_ast fuel s (Execute f)")
        case (Returned x)
        obtain fv s1 where x: "x = (fv, s1)" by (cases x)
        have e: "ends_in (run_ast fuel s (Execute f)) s1" using Returned x by simp
        from "2.IH" [OF c refl None FormulaImpl e ag] have a1: "caches_agree s1" .
        from evaluation_caches_only(2) [OF e]
        have "map_option impl (slot s1 p) = map_option impl (slot s p)"
          by (simp add: caches_only_def slot_def)
        with sl FormulaImpl have i1: "\<And>c1. slot s1 p = Some c1 \<Longrightarrow> impl c1 = FormulaImpl f"
          by auto
        from a c None FormulaImpl Returned x
        have s': "s' = store_cache s1 p (to_cell_value fv)" by simp
        show ?thesis unfolding s'
          by (rule store_cache_caches_agree [OF a1]) (use i1 in \<open>simp add: cache_agrees_def\<close>)
      next
        case (Thrown e s1)
        then have "ends_in (run_ast fuel s (Execute f)) s1" by simp
        from "2.IH" [OF c refl None FormulaImpl this ag] have "caches_agree s1" .
        with a c None FormulaImpl Thrown show ?thesis by simp
      next
        case (Crashed x)
        with a c None FormulaImpl show ?thesis by simp
      qed
    qed
  qed
next
  case (3 s i)
  then show ?case by simp
next
  case (4 fuel s fv)
  then show ?case by simp
next
  case (5 fuel s p k)
  note a = "5.prems"(1) and ag = "5.prems"(2)
  show ?case
  proof (cases "GetCell s p")
    case (Returned x)
    show ?thesis
    proof (cases x)
      case None
      with a Returned have "ends_in (run_ast fuel s (k (VDouble 0))) s'" by simp
      from "5.IH"(1) [OF Returned None this ag] show ?thesis .
    next
      case (Some c)
      show ?thesis
      proof (cases "cell_value fuel s p")
        case r: (Returned y)
        obtain v s1 where y: "y = (v, s1)" by (cases y)
        have "ends_in (cell_value fuel s p) s1" using r y by simp
        from "5.IH"(2) [OF Returned Some this ag] have c1: "caches_agree s1" .
        from a Returned Some r y have "ends_in (run_ast fuel s1 (k v)) s'" by simp
        from "5.IH"(3) [OF Returned Some r y [symmetric] this c1] show ?thesis .
      next
        case (Thrown e s1)
        then have "ends_in (cell_value fuel s p) s1" by simp
        from "5.IH"(2) [OF Returned Some this ag] have "caches_agree s1" .
        with a Returned Some Thrown show ?thesis by simp
      next
        case (Crashed z)
        with a Returned Some show ?thesis by simp
      qed
    qed
  next
    case (Thrown e s1)
    then have "s1 = s" by (auto simp: GetCell_def split: if_splits sum.splits)
    with a Thrown ag show ?thesis by simp
  next
    case (Crashed z)
    with a show ?thesis by simp
  qed
qed

lemma GetValue_caches_agree:
  assumes "caches_agree s" and "ends_in (GetValue fuel s pos) s'"
  shows "caches_agree s'"
proof (cases "GetCell s pos")
  case (Returned x)
  with assms(2) have "ends_in (cell_value fuel s pos) s'"
    by (cases x) (simp_all add: GetValue_def)
  from evaluation_caches_agree(1) [OF this assms(1)] show ?thesis .
next
  case (Thrown e s1)
  then have "s1 = s" by (auto simp: GetCell_def split: if_splits sum.splits)
  with assms Thrown show ?thesis by (simp add: GetValue_def)
next
  case (Crashed z)
  with assms show ?thesis by (simp add: GetValue_def)
qed

lemma sheet_reachable_caches_agree: "sheet_reachable parse s \<Longrightarrow> caches_agree s"
proof (induction rule: sheet_reachable.induct)
  case created
  show ?case by (simp add: caches_agree_def new_Sheet_def grid_at_def)
next
  case (set_returned s fuel pos t s')
  from SetCell_caches_agree [OF set_returned.IH] set_returned.hyps(2) show ?case by blast
next
  case (set_thrown s fuel pos t e s')
  from SetCell_caches_agree [OF set_thrown.IH] set_thrown.hyps(2) show ?case by blast
next
  case (clear_returned s pos s')
  from ClearCell_caches_agree [OF clear_returned.IH] clear_returned.hyps(2) show ?case by blast
next
  case (clear_thrown s pos e s')
  from ClearCell_caches_agree [OF clear_thrown.IH] clear_thrown.hyps(2) show ?case by blast
next
  case (value_returned s fuel pos v s')
  from GetValue_caches_agree [OF value_returned.IH, of fuel pos s'] value_returned.hyps(2)
  show ?case by simp
next
  case (value_thrown s fuel pos e s')
  from GetValue_caches_agree [OF value_thrown.IH, of fuel pos s'] value_thrown.hyps(2)
  show ?case by simp
qed

text \<open>
  Claim C9. For every Text cell of a sheet, \<^verbatim>\<open>GetText\<close> is the stored text unchanged, and
  \<^verbatim>\<open>GetValue\<close> is the stored text without its first character when it begins with the
  escape sign (whatever follows it) and the stored text itself otherwise. The sheets are
  those that calls of \<^verbatim>\<open>SetCell\<close>, \<^verbatim>\<open>ClearCell\<close> and \<^verbatim>\<open>GetValue\<close> reach from the empty
  sheet, whether the calls return or throw, so that a value cached earlier is covered.
\<close>

theorem text_cell_value_and_text:
  assumes "sheet_reachable parse s"
    and "GetCell s p = Returned (Some c)"
    and "impl c = TextImpl t"
  shows "GetText s p = Returned t \<and>
         value_of (GetValue (Suc n) s p)
           = Some (VString (if t \<noteq> [] \<and> hd t = CHR 0x27 then tl t else t))"
proof -
  from assms(2) have cc: "GetConcreteCell s p = Inr (Some c)"
    by (auto simp: GetCell_def split: if_splits sum.splits)
  from GetConcreteCell_Some [OF cc] sheet_reachable_caches_agree [OF assms(1)]
  have "cache_agrees c" by (auto simp: caches_agree_def slot_def)
  with assms(3) have "cache c = None \<or> cache c = Some (TextImpl_GetValue t)"
    by (simp add: cache_agrees_def)
  then have "value_of (cell_value (Suc n) s p) = Some (TextImpl_GetValue t)"
    using cc assms(3) by auto
  then have "value_of (GetValue (Suc n) s p)
           = Some (VString (if t \<noteq> [] \<and> hd t = CHR 0x27 then tl t else t))"
    using assms(2) by (simp add: GetValue_def TextImpl_GetValue_def ESCAPE_SIGN_def)
  moreover have "GetText s p = Returned t"
    using assms(2,3) by (simp add: GetText_def Cell_GetText_def)
  ultimately show ?thesis by simp
qed

theorem text_cell_value_and_text_witness:
  "\<exists>s. sheet_reachable example_parse s \<and>
       GetCell s A1 = Returned (Some \<lparr>impl = TextImpl (CHR 0x27 # ''=1+2''), cache = None\<rparr>) \<and>
       GetText s A1 = Returned (CHR 0x27 # ''=1+2'') \<and>
       value_of (GetValue 1 s A1) = Some (VString ''=1+2'')"
proof -
  have "returned (SetCell example_parse 10 new_Sheet A1 (CHR 0x27 # ''=1+2''))" by code_simp
  then obtain s where s: "SetCell example_parse 10 new_Sheet A1 (CHR 0x27 # ''=1+2'') = Returned s"
    by (auto dest: returned_obtain)
  have r: "sheet_reachable example_parse s"
    by (rule sheet_reachable.set_returned [OF sheet_reachable.created s])
  have nc: "Cell_Set example_parse (CHR 0x27 # ''=1+2'') new_Cell
          = Some \<lparr>impl = TextImpl (CHR 0x27 # ''=1+2''), cache = None\<rparr>"
    by (simp add: Cell_Set_def new_Cell_def FORMULA_SIGN_def)
  from SetCell_Returned_slot [OF s nc]
  have g: "GetCell s A1 = Returned (Some \<lparr>impl = TextImpl (CHR 0x27 # ''=1+2''), cache = None\<rparr>)"
    by (simp add: GetCell_valid)
  from text_cell_value_and_text [OF r g, of "CHR 0x27 # ''=1+2''" 0]
  have "GetText s A1 = Returned (CHR 0x27 # ''=1+2'') \<and>
       value_of (GetValue 1 s A1) = Some (VString ''=1+2'')"
    by simp
  with r g show ?thesis by blast
qed


section \<open>The value of a formula over the sheet\<close>













section \<open>The graph after SetCell\<close>

lemma remove_dependencies_obs:
  "remove_dependencies g pos olds = Inr g' \<Longrightarrow>
     dom g' = dom g \<and>
     (\<forall>q. forward_set g' q =
        (if q = pos then forward_set g pos - set olds else forward_set g q)) \<and>
     (\<forall>q. backward_set g' q =
        (if q \<in> set olds then backward_set g q - {pos} else backward_set g q))"
proof (induction olds arbitrary: g)
  case Nil
  then show ?case by simp
next
  case (Cons n rest)
  then obtain g1 where g1: "RemoveDependency g pos n = Inr g1"
    by (cases "RemoveDependency g pos n") simp_all
  with Cons.prems have r: "remove_dependencies g1 pos rest = Inr g'" by simp
  note o = RemoveDependency_obs [OF g1]
  from Cons.IH [OF r] have ih: "dom g' = dom g1"
    "\<And>q. forward_set g' q =
        (if q = pos then forward_set g1 pos - set rest else forward_set g1 q)"
    "\<And>q. backward_set g' q =
        (if q \<in> set rest then backward_set g1 q - {pos} else backward_set g1 q)"
    by blast+
  have "\<And>q. forward_set g' q =
        (if q = pos then forward_set g pos - set (n # rest) else forward_set g q)"
    unfolding ih(2) o(4) by auto
  moreover have "\<And>q. backward_set g' q =
        (if q \<in> set (n # rest) then backward_set g q - {pos} else backward_set g q)"
    unfolding ih(3) o(5) by auto
  ultimately show ?case using ih(1) o(1) by simp
qed

lemma add_dependencies_obs:
  "add_dependencies g pos news = Inr g' \<Longrightarrow>
     dom g' = dom g \<union> set news \<and>
     (\<forall>q. forward_set g' q =
        (if q = pos then forward_set g pos \<union> set news else forward_set g q)) \<and>
     (\<forall>q. backward_set g' q =
        (if q \<in> set news then insert pos (backward_set g q) else backward_set g q))"
proof (induction news arbitrary: g)
  case Nil
  then show ?case by simp
next
  case (Cons n rest)
  then obtain g1 where g1: "AddDependency (AddCell g n) pos n = Inr g1"
    by (cases "AddDependency (AddCell g n) pos n") simp_all
  with Cons.prems have r: "add_dependencies g1 pos rest = Inr g'" by simp
  note o = AddDependency_obs [OF g1]
  note c = AddCell_obs [of g n]
  from Cons.IH [OF r] have ih: "dom g' = dom g1 \<union> set rest"
    "\<And>q. forward_set g' q =
        (if q = pos then forward_set g1 pos \<union> set rest else forward_set g1 q)"
    "\<And>q. backward_set g' q =
        (if q \<in> set rest then insert pos (backward_set g1 q) else backward_set g1 q)"
    by blast+
  have "\<And>q. forward_set g' q =
        (if q = pos then forward_set g pos \<union> set (n # rest) else forward_set g q)"
    unfolding ih(2) o(4) c(2) by auto
  moreover have "\<And>q. backward_set g' q =
        (if q \<in> set (n # rest) then insert pos (backward_set g q) else backward_set g q)"
    unfolding ih(3) o(5) c(3) by auto
  moreover have "dom g' = dom g \<union> set (n # rest)"
    unfolding ih(1) o(1) c(1) by auto
  ultimately show ?case by simp
qed

lemma remove_dependencies_invariant:
  "mutually_consistent g \<and> no_dangling g \<Longrightarrow> remove_dependencies g pos olds = Inr g'
   \<Longrightarrow> mutually_consistent g' \<and> no_dangling g'"
proof (induction olds arbitrary: g)
  case Nil
  then show ?case by simp
next
  case (Cons n rest)
  then obtain g1 where g1: "RemoveDependency g pos n = Inr g1"
    by (cases "RemoveDependency g pos n") simp_all
  with Cons.prems have r: "remove_dependencies g1 pos rest = Inr g'" by simp
  from RemoveDependency_invariant [OF Cons.prems(1) g1] r show ?case by (rule Cons.IH)
qed

lemma add_dependencies_invariant:
  "mutually_consistent g \<and> no_dangling g \<Longrightarrow> add_dependencies g pos news = Inr g'
   \<Longrightarrow> mutually_consistent g' \<and> no_dangling g'"
proof (induction news arbitrary: g)
  case Nil
  then show ?case by simp
next
  case (Cons n rest)
  then obtain g1 where g1: "AddDependency (AddCell g n) pos n = Inr g1"
    by (cases "AddDependency (AddCell g n) pos n") simp_all
  with Cons.prems have r: "add_dependencies g1 pos rest = Inr g'" by simp
  from AddDependency_invariant [OF AddCell_invariant [OF Cons.prems(1)] g1] r
  show ?case by (rule Cons.IH)
qed

lemma materialize_ends_graph:
  "materialize s pos news acc = Returned (s', ne) \<or> materialize s pos news acc = Thrown e s'
   \<Longrightarrow> graph s' = graph s"
proof (induction news arbitrary: s acc)
  case Nil
  then show ?case by simp
next
  case (Cons n rest)
  show ?case
  proof (cases "n = pos")
    case True
    with Cons.prems show ?thesis by simp
  next
    case False
    show ?thesis
    proof (cases "IsValid n")
      case inv: False
      with Cons.prems False show ?thesis by (simp add: GetCell_invalid)
    next
      case True
      note gc = GetCell_valid [OF True, of s]
      show ?thesis
      proof (cases "slot s n")
        case (Some c)
        with Cons.prems False gc have
          "materialize s pos rest acc = Returned (s', ne) \<or> materialize s pos rest acc = Thrown e s'"
          by simp
        from Cons.IH [OF this] show ?thesis .
      next
        case None
        from PlaceCell_nonneg [OF IsValid_nonneg [OF True], of s new_Cell]
        obtain s2 where p: "PlaceCell s n new_Cell = Inr s2" and g: "graph s2 = graph s" by blast
        from Cons.prems False gc None p have
          "materialize s2 pos rest (acc @ [n]) = Returned (s', ne) \<or>
           materialize s2 pos rest (acc @ [n]) = Thrown e s'"
          by simp
        from Cons.IH [OF this] g show ?thesis by simp
      qed
    qed
  qed
qed

lemma clear_cells_ends_graph:
  "clear_cells s ps = Returned s' \<or> clear_cells s ps = Thrown e s' \<Longrightarrow> graph s' = graph s"
proof (induction ps arbitrary: s)
  case Nil
  then show ?case by simp
next
  case (Cons p ps)
  show ?case
  proof (cases "ClearCell s p")
    case (Returned s1)
    with Cons.prems have "clear_cells s1 ps = Returned s' \<or> clear_cells s1 ps = Thrown e s'"
      by simp
    from Cons.IH [OF this] ClearCell_Returned(1) [OF Returned] show ?thesis by simp
  next
    case (Thrown e1 s1)
    with Cons.prems have "s' = s1" by simp
    with ClearCell_Thrown [OF Thrown] show ?thesis by simp
  next
    case (Crashed x)
    with Cons.prems show ?thesis by simp
  qed
qed

lemma materialize_Returned_slot:
  assumes "materialize s pos news acc = Returned (s1, ne)" and "IsValid pos"
  shows "slot s1 pos = slot s pos"
proof -
  note m = materialize_Returned [OF assms(1)]
  have "\<not> (\<exists>r\<in>set news. nat (row pos) = nat (row r) \<and> nat (col pos) = nat (col r))"
  proof
    assume "\<exists>r\<in>set news. nat (row pos) = nat (row r) \<and> nat (col pos) = nat (col r)"
    then obtain r where r: "r \<in> set news" "nat (row pos) = nat (row r) \<and> nat (col pos) = nat (col r)"
      by blast
    with m have "IsValid r" by blast
    with r(2) assms(2) have "pos = r"
      using nonneg_eq_iff [of pos r] by (simp add: IsValid_nonneg)
    with r(1) m show False by blast
  qed
  with m show ?thesis by (simp add: slot_def)
qed

lemma old_dependencies_Inr:
  assumes "old_dependencies s pos (Contains g pos) = Inr olds" and "IsValid pos"
  shows "if Contains g pos then stored_references s pos = set olds else olds = []"
  using assms
  by (auto simp: old_dependencies_def GetConcreteCell_nonneg IsValid_nonneg stored_references_def
      split: if_splits option.splits)

lemma SetCell_Returned_graph:
  assumes set: "SetCell parse fuel s pos text = Returned s'"
    and nc: "Cell_Set parse text new_Cell = Some nc"
  shows "dom (graph s') = insert pos (dom (graph s)) \<union> set (Cell_GetReferencedCells nc)"
    and "\<And>q. forward_set (graph s') q =
           (if q = pos
            then (forward_set (graph s) pos - stored_references s pos)
                   \<union> set (Cell_GetReferencedCells nc)
            else forward_set (graph s) q)"
    and "mutually_consistent (graph s) \<and> no_dangling (graph s) \<Longrightarrow>
           mutually_consistent (graph s') \<and> no_dangling (graph s')"
proof -
  from SetCell_Returned [OF set] nc obtain s1 ne where
    v: "IsValid pos" and
    m: "materialize s pos (Cell_GetReferencedCells nc) [] = Returned (s1, ne)" and
    i: "install fuel s1 pos nc (Cell_GetReferencedCells nc) ne = Returned s'"
    by auto
  from materialize_Returned [OF m] have g1s: "graph s1 = graph s" by simp
  from materialize_Returned_slot [OF m v] have sr: "stored_references s1 pos = stored_references s pos"
    by (simp add: stored_references_def)
  from install_Returned [OF i] obtain olds g1 g2 s3 where
    o: "old_dependencies s1 pos (Contains (graph s1) pos) = Inr olds" and
    r: "remove_dependencies (graph s1) pos olds = Inr g1" and
    a: "add_dependencies (AddCell g1 pos) pos (Cell_GetReferencedCells nc) = Inr g2" and
    c: "if Contains (graph s1) pos
        then CheckCyclicDependencies fuel g2 pos = Inr True \<and>
             ResetCache fuel (s1\<lparr>graph := g2\<rparr>) pos = Inr s3
        else s3 = s1\<lparr>graph := g2\<rparr>" and
    p: "PlaceCell s3 pos nc = Inr s'" by blast
  have "caches_reset (s1\<lparr>graph := g2\<rparr>) s3"
    using c ResetCache_caches_reset by (auto simp: caches_reset_refl split: if_splits)
  then have g3: "graph s3 = g2" by (simp add: caches_reset_def caches_only_def)
  from PlaceCell_nonneg [OF IsValid_nonneg [OF v], of s3 nc] p have "graph s' = graph s3" by auto
  with g3 have g': "graph s' = g2" by simp
  note ro = remove_dependencies_obs [OF r]
  note ao = add_dependencies_obs [OF a]
  note co = AddCell_obs [of g1 pos]
  show "dom (graph s') = insert pos (dom (graph s)) \<union> set (Cell_GetReferencedCells nc)"
    unfolding g' using ro ao co g1s by simp
  have sub: "forward_set (graph s) pos - set olds = forward_set (graph s) pos - stored_references s pos"
  proof (cases "Contains (graph s) pos")
    case True
    with old_dependencies_Inr [OF o v] g1s sr show ?thesis by simp
  next
    case False
    then have "forward_set (graph s) pos = {}" by (simp add: Contains_def forward_set_def)
    then show ?thesis by simp
  qed
  show "\<And>q. forward_set (graph s') q =
           (if q = pos
            then (forward_set (graph s) pos - stored_references s pos)
                   \<union> set (Cell_GetReferencedCells nc)
            else forward_set (graph s) q)"
    unfolding g' using ro ao co g1s sub by simp
  assume inv: "mutually_consistent (graph s) \<and> no_dangling (graph s)"
  from remove_dependencies_invariant [OF _ r] inv g1s
  have "mutually_consistent g1 \<and> no_dangling g1" by simp
  from add_dependencies_invariant [OF AddCell_invariant [OF this] a]
  show "mutually_consistent (graph s') \<and> no_dangling (graph s')" unfolding g' .
qed

lemma consistent_backward_set:
  "mutually_consistent g \<Longrightarrow> backward_set g q = {p. q \<in> forward_set g p}"
  by (auto simp: mutually_consistent_def)

text \<open>
  Claim C5, amended. Take a pre-state whose graph is mutually consistent without dangling
  pointers, and in which every outgoing edge of \<open>pos\<close> leads to a position that the cell
  stored at \<open>pos\<close> refers to (no edge is left over from a call that failed). Then two
  successive successful \<^verbatim>\<open>SetCell\<close> calls at \<open>pos\<close>, with \<open>text1\<close> and then \<open>text2\<close>, leave
  the same edges, forward and backward, as a single successful \<^verbatim>\<open>SetCell(pos, text2)\<close>
  from that pre-state; the nodes of the former graph are the nodes of the latter together
  with the positions that \<open>text1\<close> refers to.
\<close>

theorem two_SetCells_edges_as_one:
  assumes "mutually_consistent (graph s) \<and> no_dangling (graph s)"
    and "forward_set (graph s) pos \<subseteq> stored_references s pos"
    and "SetCell parse fuel1 s pos text1 = Returned s1"
    and "SetCell parse fuel2 s1 pos text2 = Returned s2"
    and "SetCell parse fuel3 s pos text2 = Returned s2'"
    and "Cell_Set parse text1 new_Cell = Some cell1"
  shows "forward_set (graph s2) = forward_set (graph s2') \<and>
         backward_set (graph s2) = backward_set (graph s2') \<and>
         dom (graph s2) = dom (graph s2') \<union> set (Cell_GetReferencedCells cell1)"
proof -
  from SetCell_Returned [OF assms(4)] obtain cell2 where
    c2: "Cell_Set parse text2 new_Cell = Some cell2" by blast
  note a = SetCell_Returned_graph [OF assms(3) assms(6)]
  note b = SetCell_Returned_graph [OF assms(4) c2]
  note c = SetCell_Returned_graph [OF assms(5) c2]
  from SetCell_Returned_slot [OF assms(3) assms(6)]
  have st: "stored_references s1 pos = set (Cell_GetReferencedCells cell1)"
    by (simp add: stored_references_def)
  have f: "forward_set (graph s2) = forward_set (graph s2')"
  proof
    fix q show "forward_set (graph s2) q = forward_set (graph s2') q"
      unfolding b(2) c(2) a(2) st using assms(2) by auto
  qed
  have "mutually_consistent (graph s2)" using b(3) [OF a(3) [OF assms(1)]] by simp
  moreover have "mutually_consistent (graph s2')" using c(3) [OF assms(1)] by simp
  ultimately have "backward_set (graph s2) = backward_set (graph s2')"
    using f by (auto simp: consistent_backward_set fun_eq_iff)
  moreover have "dom (graph s2) = dom (graph s2') \<union> set (Cell_GetReferencedCells cell1)"
    unfolding b(1) c(1) a(1) by auto
  ultimately show ?thesis using f by simp
qed

theorem two_SetCells_edges_as_one_witness:
  "\<exists>s1 s2 s2'.
     (mutually_consistent (graph new_Sheet) \<and> no_dangling (graph new_Sheet)) \<and>
     forward_set (graph new_Sheet) A1 \<subseteq> stored_references new_Sheet A1 \<and>
     SetCell example_parse 10 new_Sheet A1 ''=B1'' = Returned s1 \<and>
     SetCell example_parse 10 s1 A1 ''=C1'' = Returned s2 \<and>
     SetCell example_parse 10 new_Sheet A1 ''=C1'' = Returned s2' \<and>
     Cell_Set example_parse ''=B1'' new_Cell
       = Some \<lparr>impl = FormulaImpl (ref_ast B1 ''B1''), cache = None\<rparr> \<and>
     forward_set (graph s2) = forward_set (graph s2') \<and>
     backward_set (graph s2) = backward_set (graph s2') \<and>
     dom (graph s2) = dom (graph s2') \<union> {B1}"
proof -
  have i: "mutually_consistent (graph new_Sheet) \<and> no_dangling (graph new_Sheet)"
    by (simp add: mutually_consistent_def no_dangling_def forward_set_def backward_set_def
        new_Sheet_def)
  have h: "forward_set (graph new_Sheet) A1 \<subseteq> stored_references new_Sheet A1"
    by (simp add: forward_set_def new_Sheet_def)
  have "returned (then_SetCell (Returned new_Sheet) A1 ''=B1'')" by code_simp
  then obtain s1 where s1: "SetCell example_parse 10 new_Sheet A1 ''=B1'' = Returned s1"
    by (auto dest: returned_obtain)
  have "returned (then_SetCell (then_SetCell (Returned new_Sheet) A1 ''=B1'') A1 ''=C1'')"
    by code_simp
  with s1 obtain s2 where s2: "SetCell example_parse 10 s1 A1 ''=C1'' = Returned s2"
    by (auto dest: returned_obtain)
  have "returned (then_SetCell (Returned new_Sheet) A1 ''=C1'')" by code_simp
  then obtain s2' where s2': "SetCell example_parse 10 new_Sheet A1 ''=C1'' = Returned s2'"
    by (auto dest: returned_obtain)
  have c1: "Cell_Set example_parse ''=B1'' new_Cell
       = Some \<lparr>impl = FormulaImpl (ref_ast B1 ''B1''), cache = None\<rparr>"
    by (simp add: Cell_Set_def example_parse_def new_Cell_def FORMULA_SIGN_def)
  from two_SetCells_edges_as_one [OF i h s1 s2 s2' c1]
  have "forward_set (graph s2) = forward_set (graph s2') \<and>
     backward_set (graph s2) = backward_set (graph s2') \<and>
     dom (graph s2) = dom (graph s2') \<union> {B1}"
    by (simp add: Cell_GetReferencedCells_def Formula_GetReferencedCells_def ref_ast_def)
  with i h s1 s2 s2' c1 show ?thesis by blast
qed

text \<open>
  Claim C5 as stated asks for equal node sets as well. On the empty sheet,
  \<^verbatim>\<open>SetCell(A1, "=B1")\<close> followed by \<^verbatim>\<open>SetCell(A1, "=C1")\<close> leaves a node for B1 in the
  graph, and the single \<^verbatim>\<open>SetCell(A1, "=C1")\<close> does not: a node is never removed when
  its last edge goes.
\<close>

theorem two_SetCells_leave_extra_node:
  "returned (then_SetCell (Returned new_Sheet) A1 ''=B1'') \<and>
   returned (then_SetCell (then_SetCell (Returned new_Sheet) A1 ''=B1'') A1 ''=C1'') \<and>
   returned (then_SetCell (Returned new_Sheet) A1 ''=C1'') \<and>
   node_after (then_SetCell (then_SetCell (Returned new_Sheet) A1 ''=B1'') A1 ''=C1'') B1
     = Some True \<and>
   node_after (then_SetCell (Returned new_Sheet) A1 ''=C1'') B1 = Some False"
  by code_simp

text \<open>
  Where a failed call has left an edge behind, the edges differ too: after the failed
  \<^verbatim>\<open>SetCell(C1, "=A1")\<close> of the chain of three and a new text in B1, setting C1 to
  \<^verbatim>\<open>=A1\<close> and then to the text 5 removes the edge from C1 to A1, and setting C1 to 5 at
  once keeps it.
\<close>

lemma stale_edge_breaks_edge_equality:
  "thrown closing_the_cycle = Some CircularDependencyException \<and>
   returned (then_SetCell closing_the_cycle B1 ''7'') \<and>
   returned (then_SetCell (then_SetCell closing_the_cycle B1 ''7'') C1 ''=A1'') \<and>
   returned (then_SetCell (then_SetCell (then_SetCell closing_the_cycle B1 ''7'') C1 ''=A1'') C1 ''5'') \<and>
   returned (then_SetCell (then_SetCell closing_the_cycle B1 ''7'') C1 ''5'') \<and>
   forward_after
     (then_SetCell (then_SetCell (then_SetCell closing_the_cycle B1 ''7'') C1 ''=A1'') C1 ''5'') C1
     = Some [] \<and>
   forward_after (then_SetCell (then_SetCell closing_the_cycle B1 ''7'') C1 ''5'') C1
     = Some [A1]"
  by code_simp


section \<open>Invariants of the sheets in use\<close>

lemma install_Thrown_steps:
  assumes "install fuel s pos nc news ne = Thrown e s'"
  shows "\<exists>olds g1 g2.
           remove_dependencies (graph s) pos olds = Inr g1 \<and>
           add_dependencies (AddCell g1 pos) pos news = Inr g2 \<and>
           rollback (s\<lparr>graph := g2\<rparr>) pos ne olds = Thrown e s'"
proof -
  obtain olds where o: "old_dependencies s pos (Contains (graph s) pos) = Inr olds"
    using assms by (cases "old_dependencies s pos (Contains (graph s) pos)")
      (simp_all add: install_def Let_def)
  obtain g1 where g1: "remove_dependencies (graph s) pos olds = Inr g1"
    using assms o by (cases "remove_dependencies (graph s) pos olds")
      (simp_all add: install_def Let_def)
  obtain g2 where g2: "add_dependencies (AddCell g1 pos) pos news = Inr g2"
    using assms o g1 by (cases "add_dependencies (AddCell g1 pos) pos news")
      (simp_all add: install_def Let_def)
  have c: "Contains (graph s) pos"
    using assms o g1 g2 place_new_cell_not_Thrown
    by (cases "Contains (graph s) pos") (simp_all add: install_def Let_def)
  obtain ok where ok: "CheckCyclicDependencies fuel g2 pos = Inr ok"
    using assms o g1 g2 c by (cases "CheckCyclicDependencies fuel g2 pos")
      (simp_all add: install_def Let_def)
  have "\<not> ok"
  proof
    assume ok
    with assms o g1 g2 c ok place_new_cell_not_Thrown show False
      by (cases "ResetCache fuel (s\<lparr>graph := g2\<rparr>) pos") (simp_all add: install_def Let_def)
  qed
  with assms o g1 g2 c ok have "rollback (s\<lparr>graph := g2\<rparr>) pos ne olds = Thrown e s'"
    by (simp add: install_def Let_def)
  with g1 g2 show ?thesis by blast
qed

lemma GetValue_ends_caches_only:
  assumes "ends_in (GetValue fuel s pos) s'"
  shows "caches_only s s'"
proof (cases "GetCell s pos")
  case (Returned x)
  with assms have "ends_in (cell_value fuel s pos) s'"
    by (cases x) (simp_all add: GetValue_def)
  from evaluation_caches_only(1) [OF this] show ?thesis .
next
  case (Thrown e s1)
  then have "s1 = s" by (auto simp: GetCell_def split: if_splits sum.splits)
  with assms Thrown show ?thesis by (simp add: GetValue_def caches_only_refl)
next
  case (Crashed z)
  with assms show ?thesis by (simp add: GetValue_def)
qed

lemma materialize_invariant:
  assumes place: "\<forall>s p c s2. P s \<longrightarrow> IsValid p \<longrightarrow> PlaceCell s p c = Inr s2 \<longrightarrow> P s2"
  shows "P s \<Longrightarrow>
     materialize s pos news acc = Returned (s', ne) \<or> materialize s pos news acc = Thrown e s'
     \<Longrightarrow> P s'"
proof (induction news arbitrary: s acc)
  case Nil
  then show ?case by simp
next
  case (Cons n rest)
  show ?case
  proof (cases "n = pos")
    case True
    with Cons.prems show ?thesis by simp
  next
    case False
    show ?thesis
    proof (cases "IsValid n")
      case inv: False
      with Cons.prems False show ?thesis by (simp add: GetCell_invalid)
    next
      case True
      note gc = GetCell_valid [OF True, of s]
      show ?thesis
      proof (cases "slot s n")
        case (Some c)
        with Cons.prems False gc have
          "materialize s pos rest acc = Returned (s', ne) \<or> materialize s pos rest acc = Thrown e s'"
          by simp
        from Cons.IH [OF Cons.prems(1) this] show ?thesis .
      next
        case None
        from PlaceCell_nonneg [OF IsValid_nonneg [OF True], of s new_Cell]
        obtain s2 where p: "PlaceCell s n new_Cell = Inr s2" by blast
        from place Cons.prems(1) True p have a: "P s2" by blast
        from Cons.prems False gc None p have
          "materialize s2 pos rest (acc @ [n]) = Returned (s', ne) \<or>
           materialize s2 pos rest (acc @ [n]) = Thrown e s'"
          by simp
        from Cons.IH [OF a this] show ?thesis .
      qed
    qed
  qed
qed

lemma clear_cells_invariant:
  assumes clear: "\<forall>s p s2. P s \<longrightarrow> ClearCell s p = Returned s2 \<longrightarrow> P s2"
  shows "P s \<Longrightarrow> clear_cells s ps = Returned s' \<or> clear_cells s ps = Thrown e s' \<Longrightarrow> P s'"
proof (induction ps arbitrary: s)
  case Nil
  then show ?case by simp
next
  case (Cons p ps)
  show ?case
  proof (cases "ClearCell s p")
    case (Returned s1)
    with Cons.prems have c: "clear_cells s1 ps = Returned s' \<or> clear_cells s1 ps = Thrown e s'"
      by simp
    from clear Cons.prems(1) Returned have "P s1" by blast
    from Cons.IH [OF this c] show ?thesis .
  next
    case (Thrown e1 s1)
    with Cons.prems have "s' = s1" by simp
    with ClearCell_Thrown [OF Thrown] Cons.prems(1) show ?thesis by simp
  next
    case (Crashed x)
    with Cons.prems show ?thesis by simp
  qed
qed

lemma SetCell_invariant:
  assumes place: "\<forall>s p c s2. P s \<longrightarrow> IsValid p \<longrightarrow> PlaceCell s p c = Inr s2 \<longrightarrow> P s2"
    and clear: "\<forall>s p s2. P s \<longrightarrow> ClearCell s p = Returned s2 \<longrightarrow> P s2"
    and caches: "\<forall>s s2. P s \<longrightarrow> caches_only s s2 \<longrightarrow> P s2"
    and graph: "\<forall>s g. P s \<longrightarrow> P (s\<lparr>graph := g\<rparr>)"
    and P: "P s"
    and run: "SetCell parse fuel s pos text = Returned s' \<or>
              SetCell parse fuel s pos text = Thrown e s'"
  shows "P s'"
  using run
proof
  assume r: "SetCell parse fuel s pos text = Returned s'"
  from SetCell_Returned [OF r] obtain nc s1 ne where
    v: "IsValid pos" and
    m: "materialize s pos (Cell_GetReferencedCells nc) [] = Returned (s1, ne)" and
    i: "install fuel s1 pos nc (Cell_GetReferencedCells nc) ne = Returned s'"
    by blast
  from materialize_invariant [where P = P, OF place P] m have a1: "P s1" by blast
  from install_Returned [OF i] obtain g2 s3 where
    c: "if Contains (graph s1) pos
        then CheckCyclicDependencies fuel g2 pos = Inr True \<and>
             ResetCache fuel (s1\<lparr>graph := g2\<rparr>) pos = Inr s3
        else s3 = s1\<lparr>graph := g2\<rparr>"
    and p: "PlaceCell s3 pos nc = Inr s'" by blast
  have "caches_only (s1\<lparr>graph := g2\<rparr>) s3"
    using c ResetCache_caches_reset
    by (auto simp: caches_only_refl caches_reset_def split: if_splits)
  with caches graph a1 have "P s3" by blast
  with place v p show ?thesis by blast
next
  assume t: "SetCell parse fuel s pos text = Thrown e s'"
  show ?thesis
  proof (cases "IsValid pos")
    case False
    with t P show ?thesis by (simp add: SetCell_def)
  next
    case True
    show ?thesis
    proof (cases "Cell_Set parse text new_Cell")
      case None
      with t True P show ?thesis by (simp add: SetCell_def)
    next
      case (Some nc)
      show ?thesis
      proof (cases "materialize s pos (Cell_GetReferencedCells nc) []")
        case (Returned x)
        obtain s1 ne where x: "x = (s1, ne)" by (cases x)
        from Returned x have m: "materialize s pos (Cell_GetReferencedCells nc) [] = Returned (s1, ne)"
          by simp
        from materialize_invariant [where P = P, OF place P] m have a1: "P s1" by blast
        from t True Some Returned x
        have "install fuel s1 pos nc (Cell_GetReferencedCells nc) ne = Thrown e s'"
          by (simp add: SetCell_def Let_def)
        from install_Thrown_steps [OF this] obtain olds gb where
          rb: "rollback (s1\<lparr>graph := gb\<rparr>) pos ne olds = Thrown e s'" by blast
        show ?thesis
        proof (cases "clear_cells (s1\<lparr>graph := gb\<rparr>) ne")
          case r2: (Returned s2)
          from graph a1 have "P (s1\<lparr>graph := gb\<rparr>)" by blast
          from clear_cells_invariant [where P = P, OF clear this] r2
          have "P s2" by blast
          with rb r2 graph show ?thesis
            by (auto simp: rollback_def split: sum.splits)
        next
          case t2: (Thrown e2 s2)
          from graph a1 have "P (s1\<lparr>graph := gb\<rparr>)" by blast
          from clear_cells_invariant [where P = P, OF clear this] t2
          have "P s2" by blast
          with rb t2 show ?thesis by (simp add: rollback_def)
        next
          case (Crashed z)
          with rb show ?thesis by (simp add: rollback_def)
        qed
      next
        case (Thrown e1 s1)
        from materialize_invariant [where P = P, OF place P] Thrown have "P s1" by blast
        with t True Some Thrown show ?thesis by (simp add: SetCell_def Let_def)
      next
        case (Crashed x)
        with t True Some show ?thesis by (simp add: SetCell_def Let_def)
      qed
    qed
  qed
qed

lemma scan_rows_past_end: "scan_rows cs (int (length cs)) ncols = Inl OutOfRange"
  by (subst scan_rows.simps) (simp add: vec_at_def)

text \<open>
  Where the grid stores exactly as many rows as the printable size counts, a \<^verbatim>\<open>ClearCell\<close>
  that rescans starts at the row behind the last one.
\<close>

lemma rescan_reads_past_last_row:
  assumes "int (length (cells s)) = rows (printable_size s)" and "IsValid p"
    and "row p < int (length (cells s))"
    and "col p < int (length (cells s ! nat (row p)))"
    and "row p + 1 = rows (printable_size s) \<or> col p + 1 = cols (printable_size s)"
  shows "ClearCell s p = Crashed OutOfRange"
proof -
  have "scan_rows ((cells s)[nat (row p) := (cells s ! nat (row p))[nat (col p) := None]])
          (rows (printable_size s)) (cols (printable_size s)) = Inl OutOfRange"
    using scan_rows_past_end
      [of "(cells s)[nat (row p) := (cells s ! nat (row p))[nat (col p) := None]]"] assms(1)
    by simp
  with assms(2-5) show ?thesis by (simp add: ClearCell_def Let_def)
qed

lemma ClearCell_Returned_exact:
  assumes "printable_size_exact s" and "ClearCell s p = Returned s'"
  shows "printable_size s' = printable_size s"
    and "s' = s \<or> (row p + 1 \<noteq> rows (printable_size s) \<and> col p + 1 \<noteq> cols (printable_size s))"
proof -
  from assms(2) have v: "IsValid p" by (auto simp: ClearCell_def split: if_splits)
  from assms(1) have len: "int (length (cells s)) = rows (printable_size s)"
    by (simp add: printable_size_exact_def)
  show b: "s' = s \<or> (row p + 1 \<noteq> rows (printable_size s) \<and> col p + 1 \<noteq> cols (printable_size s))"
  proof (cases "row p < int (length (cells s)) \<and> col p < int (length (cells s ! nat (row p)))")
    case False
    with assms(2) v show ?thesis by (auto simp: ClearCell_def Let_def split: if_splits)
  next
    case True
    show ?thesis
    proof (rule ccontr)
      assume "\<not> ?thesis"
      then have "row p + 1 = rows (printable_size s) \<or> col p + 1 = cols (printable_size s)"
        by blast
      from rescan_reads_past_last_row [OF len v _ _ this] True assms(2) show False by simp
    qed
  qed
  from b show "printable_size s' = printable_size s"
  proof
    assume "s' = s" then show ?thesis by simp
  next
    assume "row p + 1 \<noteq> rows (printable_size s) \<and> col p + 1 \<noteq> cols (printable_size s)"
    with assms(2) v show ?thesis
      by (auto simp: ClearCell_def Let_def split: if_splits)
  qed
qed

lemma PlaceCell_exact:
  assumes e: "printable_size_exact s" and v: "IsValid p" and p: "PlaceCell s p c = Inr s'"
  shows "printable_size_exact s'"
proof -
  from PlaceCell_nonneg [OF IsValid_nonneg [OF v], of s c] p
  have sz: "printable_size s' = \<lparr>rows = max (rows (printable_size s)) (row p + 1),
                                 cols = max (cols (printable_size s)) (col p + 1)\<rparr>"
    and len: "length (cells s') = max (length (cells s)) (nat (row p) + 1)"
    and gr: "\<And>i j. grid_at (cells s') i j =
              (if i = nat (row p) \<and> j = nat (col p) then Some c else grid_at (cells s) i j)"
    by auto
  from v have nn: "0 \<le> row p" "0 \<le> col p" by (simp_all add: IsValid_def)
  from e have e1: "int (length (cells s)) = rows (printable_size s)"
    and e2: "0 \<le> cols (printable_size s)"
    and e3: "\<And>i j. grid_at (cells s) i j \<noteq> None \<Longrightarrow>
        int i < rows (printable_size s) \<and> int j < cols (printable_size s)"
    and e4: "0 < rows (printable_size s) \<Longrightarrow>
        \<exists>j. grid_at (cells s) (nat (rows (printable_size s) - 1)) j \<noteq> None"
    and e5: "0 < cols (printable_size s) \<Longrightarrow>
        \<exists>i. grid_at (cells s) i (nat (cols (printable_size s) - 1)) \<noteq> None"
    by (simp_all add: printable_size_exact_def)
  have a1: "int (length (cells s')) = rows (printable_size s')"
    using len sz e1 nn by (auto simp: max_def)
  have a2: "0 \<le> cols (printable_size s')" using sz e2 by simp
  have a3: "\<And>i j. grid_at (cells s') i j \<noteq> None \<Longrightarrow>
        int i < rows (printable_size s') \<and> int j < cols (printable_size s')"
  proof -
    fix i j assume "grid_at (cells s') i j \<noteq> None"
    then have "(i = nat (row p) \<and> j = nat (col p)) \<or> grid_at (cells s) i j \<noteq> None"
      by (auto simp: gr split: if_splits)
    then show "int i < rows (printable_size s') \<and> int j < cols (printable_size s')"
      using e3 [of i j] sz nn by auto
  qed
  have a4: "\<exists>j. grid_at (cells s') (nat (rows (printable_size s') - 1)) j \<noteq> None"
  proof (cases "rows (printable_size s) \<le> row p + 1")
    case True
    then have "nat (rows (printable_size s') - 1) = nat (row p)" using sz by simp
    then show ?thesis using gr by auto
  next
    case False
    then have r: "rows (printable_size s') = rows (printable_size s)" "0 < rows (printable_size s)"
      using sz nn by auto
    from e4 [OF r(2)] obtain j where "grid_at (cells s) (nat (rows (printable_size s) - 1)) j \<noteq> None"
      by blast
    then have "grid_at (cells s') (nat (rows (printable_size s') - 1)) j \<noteq> None"
      using gr r by auto
    then show ?thesis by blast
  qed
  have a5: "\<exists>i. grid_at (cells s') i (nat (cols (printable_size s') - 1)) \<noteq> None"
  proof (cases "cols (printable_size s) \<le> col p + 1")
    case True
    then have "nat (cols (printable_size s') - 1) = nat (col p)" using sz by simp
    then show ?thesis using gr by auto
  next
    case False
    then have r: "cols (printable_size s') = cols (printable_size s)" "0 < cols (printable_size s)"
      using sz nn by auto
    from e5 [OF r(2)] obtain i where "grid_at (cells s) i (nat (cols (printable_size s) - 1)) \<noteq> None"
      by blast
    then have "grid_at (cells s') i (nat (cols (printable_size s') - 1)) \<noteq> None"
      using gr r by auto
    then show ?thesis by blast
  qed
  from a1 a2 a3 a4 a5 show ?thesis unfolding printable_size_exact_def by blast
qed

lemma ClearCell_exact:
  assumes e: "printable_size_exact s" and c: "ClearCell s p = Returned s'"
  shows "printable_size_exact s'"
proof -
  note x = ClearCell_Returned_exact [OF e c]
  from x(2) show ?thesis
  proof
    assume "s' = s" with e show ?thesis by simp
  next
    assume nb: "row p + 1 \<noteq> rows (printable_size s) \<and> col p + 1 \<noteq> cols (printable_size s)"
    from c have v: "IsValid p" by (auto simp: ClearCell_def split: if_splits)
    then have nn: "0 \<le> row p" "0 \<le> col p" by (simp_all add: IsValid_def)
    note g = ClearCell_Returned(2,3) [OF c]
    from e have e1: "int (length (cells s)) = rows (printable_size s)"
      and e2: "0 \<le> cols (printable_size s)"
      and e3: "\<And>i j. grid_at (cells s) i j \<noteq> None \<Longrightarrow>
          int i < rows (printable_size s) \<and> int j < cols (printable_size s)"
      and e4: "0 < rows (printable_size s) \<Longrightarrow>
          \<exists>j. grid_at (cells s) (nat (rows (printable_size s) - 1)) j \<noteq> None"
      and e5: "0 < cols (printable_size s) \<Longrightarrow>
          \<exists>i. grid_at (cells s) i (nat (cols (printable_size s) - 1)) \<noteq> None"
      by (simp_all add: printable_size_exact_def)
    have r: "nat (rows (printable_size s) - 1) \<noteq> nat (row p) \<or> rows (printable_size s) \<le> 0"
      using nb nn by auto
    have cc: "nat (cols (printable_size s) - 1) \<noteq> nat (col p) \<or> cols (printable_size s) \<le> 0"
      using nb nn by auto
    have a4: "0 < rows (printable_size s) \<Longrightarrow>
          \<exists>j. grid_at (cells s') (nat (rows (printable_size s) - 1)) j \<noteq> None"
      using e4 r g(2) by auto
    have a5: "0 < cols (printable_size s) \<Longrightarrow>
          \<exists>i. grid_at (cells s') i (nat (cols (printable_size s) - 1)) \<noteq> None"
      using e5 cc g(2) by auto
    have a3: "\<And>i j. grid_at (cells s') i j \<noteq> None \<Longrightarrow>
          int i < rows (printable_size s) \<and> int j < cols (printable_size s)"
      using e3 g(2) by (auto split: if_splits)
    from a3 a4 a5 e1 e2 g(1) x(1) show ?thesis unfolding printable_size_exact_def by simp
  qed
qed

lemma caches_only_exact:
  assumes "printable_size_exact s" and "caches_only s s'"
  shows "printable_size_exact s'"
proof -
  from assms(2) have o: "printable_size s' = printable_size s" "length (cells s') = length (cells s)"
    and m: "\<And>i j. map_option impl (grid_at (cells s') i j) = map_option impl (grid_at (cells s) i j)"
    unfolding caches_only_def by simp_all
  have n: "\<And>i j. grid_at (cells s') i j \<noteq> None \<longleftrightarrow> grid_at (cells s) i j \<noteq> None"
  proof -
    fix i j show "grid_at (cells s') i j \<noteq> None \<longleftrightarrow> grid_at (cells s) i j \<noteq> None"
      using m [of i j] by (cases "grid_at (cells s') i j"; cases "grid_at (cells s) i j") simp_all
  qed
  note o = o n
  with assms(1) show ?thesis unfolding printable_size_exact_def by simp
qed

lemma SetCell_exact:
  assumes "printable_size_exact s"
    and "SetCell parse fuel s pos text = Returned s' \<or> SetCell parse fuel s pos text = Thrown e s'"
  shows "printable_size_exact s'"
proof (rule SetCell_invariant [where P = printable_size_exact, OF _ _ _ _ assms])
  show "\<forall>s p c s2. printable_size_exact s \<longrightarrow> IsValid p \<longrightarrow> PlaceCell s p c = Inr s2
          \<longrightarrow> printable_size_exact s2"
    by (blast intro: PlaceCell_exact)
  show "\<forall>s p s2. printable_size_exact s \<longrightarrow> ClearCell s p = Returned s2
          \<longrightarrow> printable_size_exact s2"
    by (blast intro: ClearCell_exact)
  show "\<forall>s s2. printable_size_exact s \<longrightarrow> caches_only s s2 \<longrightarrow> printable_size_exact s2"
    by (blast intro: caches_only_exact)
  show "\<forall>s g. printable_size_exact s \<longrightarrow> printable_size_exact (s\<lparr>graph := g\<rparr>)"
    by (simp add: printable_size_exact_def)
qed

text \<open>
  In every sheet in use the printable size is exact: the grid stores as many rows as the
  size counts, every occupied slot lies inside the region, and its last row and its last
  column are occupied.
\<close>

lemma sheet_reachable_printable_size_exact:
  "sheet_reachable parse s \<Longrightarrow> printable_size_exact s"
proof (induction rule: sheet_reachable.induct)
  case created
  show ?case by (simp add: printable_size_exact_def new_Sheet_def grid_at_def)
next
  case (set_returned s fuel pos t s')
  from SetCell_exact [OF set_returned.IH disjI1 [OF set_returned.hyps(2)]] show ?case .
next
  case (set_thrown s fuel pos t e s')
  from SetCell_exact [OF set_thrown.IH disjI2 [OF set_thrown.hyps(2)]] show ?case .
next
  case (clear_returned s pos s')
  from ClearCell_exact [OF clear_returned.IH clear_returned.hyps(2)] show ?case .
next
  case (clear_thrown s pos e s')
  from ClearCell_Thrown [OF clear_thrown.hyps(2)] clear_thrown.IH show ?case by simp
next
  case (value_returned s fuel pos v s')
  from GetValue_ends_caches_only [of fuel s pos s'] value_returned.hyps(2)
  have "caches_only s s'" by simp
  from caches_only_exact [OF value_returned.IH this] show ?case .
next
  case (value_thrown s fuel pos e s')
  from GetValue_ends_caches_only [of fuel s pos s'] value_thrown.hyps(2)
  have "caches_only s s'" by simp
  from caches_only_exact [OF value_thrown.IH this] show ?case .
qed

lemma remove_dependencies_preserves:
  assumes remove: "\<forall>g a b g'. Q g \<longrightarrow> RemoveDependency g a b = Inr g' \<longrightarrow> Q g'"
  shows "Q g \<Longrightarrow> remove_dependencies g pos olds = Inr g' \<Longrightarrow> Q g'"
proof (induction olds arbitrary: g)
  case Nil
  then show ?case by simp
next
  case (Cons n rest)
  then obtain g1 where g1: "RemoveDependency g pos n = Inr g1"
    by (cases "RemoveDependency g pos n") simp_all
  with Cons.prems have r: "remove_dependencies g1 pos rest = Inr g'" by simp
  from remove Cons.prems(1) g1 have "Q g1" by blast
  from Cons.IH [OF this r] show ?case .
qed

lemma add_dependencies_preserves:
  assumes add_cell: "\<forall>g p. Q g \<longrightarrow> Q (AddCell g p)"
    and add: "\<forall>g a b g'. Q g \<longrightarrow> AddDependency g a b = Inr g' \<longrightarrow> Q g'"
  shows "Q g \<Longrightarrow> add_dependencies g pos news = Inr g' \<Longrightarrow> Q g'"
proof (induction news arbitrary: g)
  case Nil
  then show ?case by simp
next
  case (Cons n rest)
  then obtain g1 where g1: "AddDependency (AddCell g n) pos n = Inr g1"
    by (cases "AddDependency (AddCell g n) pos n") simp_all
  with Cons.prems have r: "add_dependencies g1 pos rest = Inr g'" by simp
  from add_cell add Cons.prems(1) g1 have "Q g1" by blast
  from Cons.IH [OF this r] show ?case .
qed

lemma SetCell_graph_invariant:
  assumes add_cell: "\<forall>g p. Q g \<longrightarrow> Q (AddCell g p)"
    and add: "\<forall>g a b g'. Q g \<longrightarrow> AddDependency g a b = Inr g' \<longrightarrow> Q g'"
    and remove: "\<forall>g a b g'. Q g \<longrightarrow> RemoveDependency g a b = Inr g' \<longrightarrow> Q g'"
    and Q: "Q (graph s)"
    and run: "SetCell parse fuel s pos text = Returned s' \<or>
              SetCell parse fuel s pos text = Thrown e s'"
  shows "Q (graph s')"
  using run
proof
  assume r: "SetCell parse fuel s pos text = Returned s'"
  from SetCell_Returned [OF r] obtain nc s1 ne where
    v: "IsValid pos" and
    m: "materialize s pos (Cell_GetReferencedCells nc) [] = Returned (s1, ne)" and
    i: "install fuel s1 pos nc (Cell_GetReferencedCells nc) ne = Returned s'"
    by blast
  from materialize_Returned [OF m] have g1s: "graph s1 = graph s" by simp
  from install_Returned [OF i] obtain olds g1 g2 s3 where
    rm: "remove_dependencies (graph s1) pos olds = Inr g1" and
    ad: "add_dependencies (AddCell g1 pos) pos (Cell_GetReferencedCells nc) = Inr g2" and
    c: "if Contains (graph s1) pos
        then CheckCyclicDependencies fuel g2 pos = Inr True \<and>
             ResetCache fuel (s1\<lparr>graph := g2\<rparr>) pos = Inr s3
        else s3 = s1\<lparr>graph := g2\<rparr>" and
    p: "PlaceCell s3 pos nc = Inr s'" by blast
  have "caches_reset (s1\<lparr>graph := g2\<rparr>) s3"
    using c ResetCache_caches_reset by (auto simp: caches_reset_refl split: if_splits)
  then have g3: "graph s3 = g2" by (simp add: caches_reset_def caches_only_def)
  from PlaceCell_nonneg [OF IsValid_nonneg [OF v], of s3 nc] p have "graph s' = graph s3" by auto
  with g3 have g': "graph s' = g2" by simp
  from remove_dependencies_preserves [where Q = Q, OF remove _ rm] Q g1s
  have "Q g1" by simp
  with add_cell have "Q (AddCell g1 pos)" by blast
  from add_dependencies_preserves [where Q = Q, OF add_cell add this ad]
  show ?thesis by (simp add: g')
next
  assume t: "SetCell parse fuel s pos text = Thrown e s'"
  show ?thesis
  proof (cases "IsValid pos")
    case False
    with t Q show ?thesis by (simp add: SetCell_def)
  next
    case True
    show ?thesis
    proof (cases "Cell_Set parse text new_Cell")
      case None
      with t True Q show ?thesis by (simp add: SetCell_def)
    next
      case (Some nc)
      show ?thesis
      proof (cases "materialize s pos (Cell_GetReferencedCells nc) []")
        case (Returned x)
        obtain s1 ne where x: "x = (s1, ne)" by (cases x)
        from Returned x have "materialize s pos (Cell_GetReferencedCells nc) [] = Returned (s1, ne)"
          by simp
        from materialize_Returned [OF this] have g1: "graph s1 = graph s" by simp
        from t True Some Returned x
        have "install fuel s1 pos nc (Cell_GetReferencedCells nc) ne = Thrown e s'"
          by (simp add: SetCell_def Let_def)
        from install_Thrown_steps [OF this] obtain olds ga gb where
          r: "remove_dependencies (graph s1) pos olds = Inr ga" and
          a: "add_dependencies (AddCell ga pos) pos (Cell_GetReferencedCells nc) = Inr gb" and
          rb: "rollback (s1\<lparr>graph := gb\<rparr>) pos ne olds = Thrown e s'" by blast
        from remove_dependencies_preserves [where Q = Q, OF remove _ r] Q g1
        have "Q ga" by simp
        with add_cell have "Q (AddCell ga pos)" by blast
        from add_dependencies_preserves [where Q = Q, OF add_cell add this a]
        have gb: "Q gb" .
        show ?thesis
        proof (cases "clear_cells (s1\<lparr>graph := gb\<rparr>) ne")
          case r2: (Returned s2)
          from clear_cells_ends_graph [OF disjI1, OF r2] have g2: "graph s2 = gb" by simp
          from rb r2 obtain g3 where a3: "add_dependencies (graph s2) pos olds = Inr g3"
            and s': "s' = s2\<lparr>graph := g3\<rparr>"
            by (cases "add_dependencies (graph s2) pos olds") (simp_all add: rollback_def)
          from add_dependencies_preserves [where Q = Q, OF add_cell add _ a3] gb g2
          show ?thesis by (simp add: s')
        next
          case t2: (Thrown e2 s2)
          from clear_cells_ends_graph [OF disjI2, OF t2] have g2: "graph s2 = gb" by simp
          from rb t2 have "s' = s2" by (simp add: rollback_def)
          with g2 gb show ?thesis by simp
        next
          case (Crashed z)
          with rb show ?thesis by (simp add: rollback_def)
        qed
      next
        case (Thrown e1 s1)
        from materialize_ends_graph [OF disjI2, OF Thrown]
        have g1: "graph s1 = graph s" .
        from t True Some Thrown have "s' = s1" by (simp add: SetCell_def Let_def)
        with g1 Q show ?thesis by simp
      next
        case (Crashed x)
        with t True Some show ?thesis by (simp add: SetCell_def Let_def)
      qed
    qed
  qed
qed

lemma sheet_reachable_graph_invariant:
  assumes add_cell: "\<forall>g p. Q g \<longrightarrow> Q (AddCell g p)"
    and add: "\<forall>g a b g'. Q g \<longrightarrow> AddDependency g a b = Inr g' \<longrightarrow> Q g'"
    and remove: "\<forall>g a b g'. Q g \<longrightarrow> RemoveDependency g a b = Inr g' \<longrightarrow> Q g'"
    and start: "Q Map.empty"
  shows "sheet_reachable parse s \<Longrightarrow> Q (graph s)"
proof (induction rule: sheet_reachable.induct)
  case created
  from start show ?case by (simp add: new_Sheet_def)
next
  case (set_returned s fuel pos t s')
  from SetCell_graph_invariant [where Q = Q, OF add_cell add remove set_returned.IH
      disjI1 [OF set_returned.hyps(2)]]
  show ?case .
next
  case (set_thrown s fuel pos t e s')
  from SetCell_graph_invariant [where Q = Q, OF add_cell add remove set_thrown.IH
      disjI2 [OF set_thrown.hyps(2)]]
  show ?case .
next
  case (clear_returned s pos s')
  from ClearCell_Returned(1) [OF clear_returned.hyps(2)] clear_returned.IH show ?case by simp
next
  case (clear_thrown s pos e s')
  from ClearCell_Thrown [OF clear_thrown.hyps(2)] clear_thrown.IH show ?case by simp
next
  case (value_returned s fuel pos v s')
  from GetValue_ends_caches_only [of fuel s pos s'] value_returned.hyps(2)
  have "graph s' = graph s" by (simp add: caches_only_def)
  with value_returned.IH show ?case by simp
next
  case (value_thrown s fuel pos e s')
  from GetValue_ends_caches_only [of fuel s pos s'] value_thrown.hyps(2)
  have "graph s' = graph s" by (simp add: caches_only_def)
  with value_thrown.IH show ?case by simp
qed

text \<open>
  The graph of a sheet in use is built by the operations of the graph alone, so it keeps
  its forward and backward sets consistent.
\<close>

lemma sheet_reachable_graph_reachable:
  "sheet_reachable parse s \<Longrightarrow> graph_reachable (graph s)"
  by (rule sheet_reachable_graph_invariant [where Q = graph_reachable])
    (blast intro: graph_reachable.intros)+

lemma sheet_reachable_graph_well_formed:
  assumes "sheet_reachable parse s"
  shows "mutually_consistent (graph s) \<and> no_dangling (graph s)"
  using graph_reachable_invariant [OF sheet_reachable_graph_reachable [OF assms]] .


section \<open>Cache invalidation and the rescan\<close>

lemma ancestor_cases_first:
  "ancestor g c q \<Longrightarrow> q = c \<or> (\<exists>y\<in>backward_set g c. ancestor g y q)"
proof (induction rule: ancestor.induct)
  case self
  show ?case by simp
next
  case (step p q)
  from step.IH show ?case
  proof
    assume "p = c"
    with step.hyps(2) ancestor.self [of g q] show ?thesis by blast
  next
    assume "\<exists>y\<in>backward_set g c. ancestor g y p"
    then obtain y where "y \<in> backward_set g c" "ancestor g y p" by blast
    with step.hyps(2) show ?thesis by (blast intro: ancestor.step)
  qed
qed

lemma caches_reset_reset_at:
  assumes "caches_reset s s'" and "reset_at s q"
  shows "reset_at s' q"
proof -
  from assms(2) have nn: "nonneg q" by (simp add: reset_at_def)
  from assms(2) obtain c where c: "slot s q = Some c" "cache c = None"
    by (auto simp: reset_at_def)
  from assms(1) c(1) have "map_option impl (slot s' q) = Some (impl c)"
    by (simp add: caches_reset_def caches_only_def slot_def)
  then obtain c' where c': "slot s' q = Some c'" by auto
  with assms(1) have "cache c' = None \<or> slot s q = Some c'"
    by (simp add: caches_reset_def slot_def)
  with c c' nn show ?thesis by (auto simp: reset_at_def)
qed

lemma reseter_reset_at:
  assumes "reseter s p = Inr s'"
  shows "reset_at s' p"
proof -
  from assms obtain c where c: "GetConcreteCell s p = Inr (Some c)"
    and s': "s' = update_cell s p Cell_ResetCache"
    by (auto simp: reseter_def split: sum.splits option.splits)
  from GetConcreteCell_Some [OF c] have nn: "nonneg p" and "slot s p = Some c" by simp_all
  then have "slot s' p = Some (Cell_ResetCache c)"
    by (simp add: s' slot_def update_cell_obs)
  with nn show ?thesis by (simp add: reset_at_def Cell_ResetCache_def)
qed

lemma reset_visits_ancestors:
  "reset_node fuel g s current verified = Inr (s', v') \<Longrightarrow> node_keys g \<Longrightarrow>
     (\<forall>x\<in>set verified. \<forall>q. ancestor g x q \<longrightarrow> reset_at s q) \<Longrightarrow>
     (\<forall>q. ancestor g current q \<longrightarrow> reset_at s' q) \<and>
     (\<forall>x\<in>set v'. \<forall>q. ancestor g x q \<longrightarrow> reset_at s' q)"
  "reset_loop fuel g s nodes verified = Inr (s', v') \<Longrightarrow> node_keys g \<Longrightarrow>
     (\<forall>x\<in>set verified. \<forall>q. ancestor g x q \<longrightarrow> reset_at s q) \<Longrightarrow>
     (\<forall>x\<in>set nodes. \<forall>q. ancestor g x q \<longrightarrow> reset_at s' q) \<and>
     (\<forall>x\<in>set v'. \<forall>q. ancestor g x q \<longrightarrow> reset_at s' q)"
proof (induction fuel g s current verified and fuel g s nodes verified
    arbitrary: s' v' and s' v' rule: reset_node_reset_loop.induct)
  case (1 g s current verified)
  then show ?case by simp
next
  case (2 fuel g s current verified)
  note a = "2.prems"(1) and k = "2.prems"(2) and inv = "2.prems"(3)
  from a obtain n where n: "g current = Some n" by (cases "g current") simp_all
  with a obtain s1 where s1: "reseter s (cell n) = Inr s1"
    by (cases "reseter s (cell n)") simp_all
  with a n have l: "reset_loop fuel g s1 (backward n) verified = Inr (s', v')" by simp
  from k n have cn: "cell n = current" by (simp add: node_keys_def)
  note r1 = reseter_caches_reset [OF s1]
  have inv1: "\<forall>x\<in>set verified. \<forall>q. ancestor g x q \<longrightarrow> reset_at s1 q"
    using inv caches_reset_reset_at [OF r1] by blast
  from "2.IH" [OF n s1 l k inv1]
  have ih: "\<forall>x\<in>set (backward n). \<forall>q. ancestor g x q \<longrightarrow> reset_at s' q"
    "\<forall>x\<in>set v'. \<forall>q. ancestor g x q \<longrightarrow> reset_at s' q" by simp_all
  have "reset_at s1 current" using reseter_reset_at [OF s1] cn by simp
  with caches_reset_reset_at [OF reset_caches_reset(2) [OF l]]
  have cur: "reset_at s' current" .
  have bs: "backward_set g current = set (backward n)" using n by (simp add: backward_set_def)
  have "\<forall>q. ancestor g current q \<longrightarrow> reset_at s' q"
  proof (intro allI impI)
    fix q assume "ancestor g current q"
    from ancestor_cases_first [OF this] show "reset_at s' q"
      using cur ih(1) bs by auto
  qed
  with ih(2) show ?case by simp
next
  case (3 fuel g s verified)
  then show ?case by simp
next
  case (4 fuel g s next_node rest verified)
  note a = "4.prems"(1) and k = "4.prems"(2) and inv = "4.prems"(3)
  show ?case
  proof (cases "next_node \<in> set verified")
    case True
    with a have l: "reset_loop fuel g s rest verified = Inr (s', v')" by simp
    from "4.IH"(1) [OF True l k inv]
    have ih: "\<forall>x\<in>set rest. \<forall>q. ancestor g x q \<longrightarrow> reset_at s' q"
      "\<forall>x\<in>set v'. \<forall>q. ancestor g x q \<longrightarrow> reset_at s' q" by simp_all
    have "\<forall>q. ancestor g next_node q \<longrightarrow> reset_at s' q"
      using inv True caches_reset_reset_at [OF reset_caches_reset(2) [OF l]] by blast
    with ih show ?thesis by simp
  next
    case False
    with a obtain s1 v1 where r: "reset_node fuel g s next_node verified = Inr (s1, v1)"
      by (cases "reset_node fuel g s next_node verified") auto
    with a False have l: "reset_loop fuel g s1 rest (uset_insert next_node v1) = Inr (s', v')"
      by simp
    from "4.IH"(2) [OF False r k inv]
    have n1: "\<forall>q. ancestor g next_node q \<longrightarrow> reset_at s1 q"
      and i1: "\<forall>x\<in>set v1. \<forall>q. ancestor g x q \<longrightarrow> reset_at s1 q" by simp_all
    then have inv1: "\<forall>x\<in>set (uset_insert next_node v1). \<forall>q. ancestor g x q \<longrightarrow> reset_at s1 q"
      by simp
    from "4.IH"(3) [OF False r refl l k inv1]
    have ih: "\<forall>x\<in>set rest. \<forall>q. ancestor g x q \<longrightarrow> reset_at s' q"
      "\<forall>x\<in>set v'. \<forall>q. ancestor g x q \<longrightarrow> reset_at s' q" by simp_all
    have "\<forall>q. ancestor g next_node q \<longrightarrow> reset_at s' q"
      using n1 caches_reset_reset_at [OF reset_caches_reset(2) [OF l]] by blast
    with ih show ?thesis by simp
  qed
qed

lemma ResetCache_resets_ancestors:
  assumes "ResetCache fuel s c = Inr s'" and "node_keys (graph s)" and "ancestor (graph s) c q"
  shows "reset_at s' q"
proof -
  from assms(1) obtain v' where "reset_node fuel (graph s) s c [] = Inr (s', v')"
    by (auto simp: ResetCache_def split: if_splits sum.splits)
  from reset_visits_ancestors(1) [OF this assms(2)] assms(3) show ?thesis by simp
qed

lemma node_keys_AddCell: "node_keys g \<Longrightarrow> node_keys (AddCell g p)"
  by (simp add: node_keys_def AddCell_def)

lemma node_keys_AddDependency:
  assumes "node_keys g" and "AddDependency g a b = Inr g'"
  shows "node_keys g'"
proof -
  from AddDependency_Inr [OF assms(2)] obtain na nb where
    a: "g a = Some na" and b: "g b = Some nb" and
    g': "g' = (g(a \<mapsto> na\<lparr>forward := uset_insert b (forward na)\<rparr>))
              (b \<mapsto> (the ((g(a \<mapsto> na\<lparr>forward := uset_insert b (forward na)\<rparr>)) b))
                      \<lparr>backward := uset_insert a (backward (the ((g(a \<mapsto> na\<lparr>forward := uset_insert b (forward na)\<rparr>)) b)))\<rparr>)"
    by blast
  from assms(1) a b have ca: "cell na = a" and cb: "cell nb = b"
    by (simp_all add: node_keys_def)
  show ?thesis
    unfolding node_keys_def
  proof (intro allI impI)
    fix p n assume pn: "g' p = Some n"
    show "cell n = p"
    proof (cases "p = b")
      case True
      with pn a b ca cb show ?thesis by (cases "a = b") (auto simp: g')
    next
      case False
      show ?thesis
      proof (cases "p = a")
        case True
        with pn False ca show ?thesis by (auto simp: g')
      next
        case pa: False
        with pn False have "g p = Some n" by (simp add: g')
        with assms(1) show ?thesis by (simp add: node_keys_def)
      qed
    qed
  qed
qed

lemma node_keys_RemoveDependency:
  assumes "node_keys g" and "RemoveDependency g a b = Inr g'"
  shows "node_keys g'"
proof -
  from RemoveDependency_Inr [OF assms(2)] obtain na nb where
    a: "g a = Some na" and b: "g b = Some nb" and
    g': "g' = (g(a \<mapsto> na\<lparr>forward := uset_erase b (forward na)\<rparr>))
              (b \<mapsto> (the ((g(a \<mapsto> na\<lparr>forward := uset_erase b (forward na)\<rparr>)) b))
                      \<lparr>backward := uset_erase a (backward (the ((g(a \<mapsto> na\<lparr>forward := uset_erase b (forward na)\<rparr>)) b)))\<rparr>)"
    by blast
  from assms(1) a b have ca: "cell na = a" and cb: "cell nb = b"
    by (simp_all add: node_keys_def)
  show ?thesis
    unfolding node_keys_def
  proof (intro allI impI)
    fix p n assume pn: "g' p = Some n"
    show "cell n = p"
    proof (cases "p = b")
      case True
      with pn a b ca cb show ?thesis by (cases "a = b") (auto simp: g')
    next
      case False
      show ?thesis
      proof (cases "p = a")
        case True
        with pn False ca show ?thesis by (auto simp: g')
      next
        case pa: False
        with pn False have "g p = Some n" by (simp add: g')
        with assms(1) show ?thesis by (simp add: node_keys_def)
      qed
    qed
  qed
qed

lemma sheet_reachable_node_keys: "sheet_reachable parse s \<Longrightarrow> node_keys (graph s)"
proof (rule sheet_reachable_graph_invariant [where Q = node_keys])
  show "\<forall>g p. node_keys g \<longrightarrow> node_keys (AddCell g p)"
    by (blast intro: node_keys_AddCell)
  show "\<forall>g a b g'. node_keys g \<longrightarrow> AddDependency g a b = Inr g' \<longrightarrow> node_keys g'"
    by (blast intro: node_keys_AddDependency)
  show "\<forall>g a b g'. node_keys g \<longrightarrow> RemoveDependency g a b = Inr g' \<longrightarrow> node_keys g'"
    by (blast intro: node_keys_RemoveDependency)
  show "node_keys Map.empty" by (simp add: node_keys_def)
qed

text \<open>
  The half of claim C3 that holds: after a successful \<^verbatim>\<open>SetCell\<close> at \<open>pos\<close>, every position
  from which the graph leads to \<open>pos\<close> holds a cell without a cached value, so that its next
  \<^verbatim>\<open>GetValue\<close> computes.
\<close>

lemma SetCell_resets_ancestors:
  assumes reach: "sheet_reachable parse s"
    and set: "SetCell parse fuel s pos text = Returned s'"
    and anc: "ancestor (graph s') pos q" and ne: "q \<noteq> pos"
  shows "reset_at s' q"
proof -
  from SetCell_Returned [OF set] obtain nc s1 ne where
    v: "IsValid pos" and
    m: "materialize s pos (Cell_GetReferencedCells nc) [] = Returned (s1, ne)" and
    i: "install fuel s1 pos nc (Cell_GetReferencedCells nc) ne = Returned s'"
    by blast
  note mm = materialize_Returned [OF m]
  from install_Returned [OF i] obtain olds g1 g2 s3 where
    o: "old_dependencies s1 pos (Contains (graph s1) pos) = Inr olds" and
    rm: "remove_dependencies (graph s1) pos olds = Inr g1" and
    ad: "add_dependencies (AddCell g1 pos) pos (Cell_GetReferencedCells nc) = Inr g2" and
    c: "if Contains (graph s1) pos
        then CheckCyclicDependencies fuel g2 pos = Inr True \<and>
             ResetCache fuel (s1\<lparr>graph := g2\<rparr>) pos = Inr s3
        else s3 = s1\<lparr>graph := g2\<rparr>" and
    p: "PlaceCell s3 pos nc = Inr s'" by blast
  have "caches_reset (s1\<lparr>graph := g2\<rparr>) s3"
    using c ResetCache_caches_reset by (auto simp: caches_reset_refl split: if_splits)
  then have g3: "graph s3 = g2" by (simp add: caches_reset_def caches_only_def)
  from PlaceCell_nonneg [OF IsValid_nonneg [OF v], of s3 nc] p
  have gs': "graph s' = graph s3"
    and gr': "\<And>i j. grid_at (cells s') i j =
              (if i = nat (row pos) \<and> j = nat (col pos) then Some nc else grid_at (cells s3) i j)"
    by auto
  from gs' g3 have g': "graph s' = g2" by simp
  have "sheet_reachable parse s'"
    by (rule sheet_reachable.set_returned [OF reach set])
  from sheet_reachable_node_keys [OF this] g' have k2: "node_keys g2" by simp
  show ?thesis
  proof (cases "Contains (graph s1) pos")
    case True
    with c have rc: "ResetCache fuel (s1\<lparr>graph := g2\<rparr>) pos = Inr s3" by simp
    from ResetCache_resets_ancestors [OF rc] k2 anc g'
    have r3: "reset_at s3 q" by simp
    then have nq: "nonneg q" by (simp add: reset_at_def)
    with ne v have "\<not> (nat (row q) = nat (row pos) \<and> nat (col q) = nat (col pos))"
      using nonneg_eq_iff [of q pos] by (simp add: IsValid_nonneg)
    with gr' have "slot s' q = slot s3 q" by (auto simp: slot_def)
    with r3 show ?thesis by (simp add: reset_at_def)
  next
    case False
    with o have "olds = []" by (simp add: old_dependencies_def)
    with rm have g1: "g1 = graph s1" by simp
    from False have "backward_set (graph s1) pos = {}"
      by (simp add: Contains_def backward_set_def)
    with add_dependencies_obs [OF ad] AddCell_obs(3) [of g1 pos] g1 mm
    have "backward_set g2 pos = {}" by simp
    with ancestor_cases_first [OF anc] ne g' show ?thesis by simp
  qed
qed

text \<open>
  Behind claims C4 and C10: in a sheet in use, every \<^verbatim>\<open>ClearCell\<close> of a stored slot on
  the boundary of the printable region reads past the last row.
\<close>

lemma every_rescan_reads_past_last_row:
  assumes "sheet_reachable parse s" and "IsValid p"
    and "row p < int (length (cells s))"
    and "col p < int (length (cells s ! nat (row p)))"
    and "row p + 1 = rows (printable_size s) \<or> col p + 1 = cols (printable_size s)"
  shows "ClearCell s p = Crashed OutOfRange"
proof -
  from sheet_reachable_printable_size_exact [OF assms(1)]
  have "int (length (cells s)) = rows (printable_size s)"
    by (simp add: printable_size_exact_def)
  from rescan_reads_past_last_row [OF this assms(2-5)] show ?thesis .
qed

text \<open>
  The loop of the rescan returns at the first occupied slot it meets. On the grid that
  \<^verbatim>\<open>ClearCell(B3)\<close> leaves of the three cells above, started at the last stored row, it
  answers 2 by 1, the column of A2, while C1 occupies column 2.
\<close>

lemma rescan_answers_column_of_highest_row:
  "scan_rows
     [[None, None, Some \<lparr>impl = TextImpl ''x'', cache = None\<rparr>],
      [Some \<lparr>impl = TextImpl ''y'', cache = None\<rparr>],
      [None, None]] 2 3
     = Inr (Some \<lparr>rows = 2, cols = 1\<rparr>)"
  by code_simp

section \<open>Setting a cleared cell again\<close>

text \<open>
  \<^verbatim>\<open>ClearCell\<close> leaves the node of the cleared position in the graph, and \<^verbatim>\<open>SetCell\<close> takes
  a position with a node to hold a cell: after \<^verbatim>\<open>SetCell(C3, "=A1")\<close> and \<^verbatim>\<open>ClearCell(A1)\<close>,
  the call \<^verbatim>\<open>SetCell(A1, "5")\<close> fails the assertion on \<^verbatim>\<open>old_cell\<close>.
\<close>

lemma SetCell_after_ClearCell_fails_assertion:
  "returned (then_ClearCell (then_SetCell (Returned new_Sheet) C3 ''=A1'') A1) \<and>
   crash_of (then_SetCell (then_ClearCell (then_SetCell (Returned new_Sheet) C3 ''=A1'') A1) A1 ''5'')
     = Some AssertionFailed"
  by code_simp

section \<open>A self-reference\<close>

text \<open>
  The part of claim C2 that holds: a \<^verbatim>\<open>SetCell\<close> whose new cell refers to its own position
  always throws (the circular-dependency exception, or the invalid-position exception
  when an invalid reference comes first), leaves the graph as it was and does not touch
  the slot at its position.
\<close>

lemma materialize_self_reference:
  "pos \<in> set news \<Longrightarrow> IsValid pos \<Longrightarrow>
     \<exists>e s'. materialize s pos news acc = Thrown e s' \<and>
       (e = CircularDependencyException \<or> e = InvalidPositionException) \<and>
       graph s' = graph s \<and> slot s' pos = slot s pos"
proof (induction news arbitrary: s acc)
  case Nil
  then show ?case by simp
next
  case (Cons n rest)
  show ?case
  proof (cases "n = pos")
    case True
    then show ?thesis by simp
  next
    case False
    with Cons.prems have in_rest: "pos \<in> set rest" by simp
    show ?thesis
    proof (cases "IsValid n")
      case inv: False
      with False show ?thesis by (simp add: GetCell_invalid)
    next
      case True
      note gc = GetCell_valid [OF True, of s]
      show ?thesis
      proof (cases "slot s n")
        case (Some c)
        with False gc have "materialize s pos (n # rest) acc = materialize s pos rest acc"
          by simp
        with Cons.IH [OF in_rest Cons.prems(2), of s acc] show ?thesis by simp
      next
        case None
        from PlaceCell_nonneg [OF IsValid_nonneg [OF True], of s new_Cell]
        obtain s2 where p: "PlaceCell s n new_Cell = Inr s2" and g: "graph s2 = graph s"
          and gr: "\<And>i j. grid_at (cells s2) i j =
              (if i = nat (row n) \<and> j = nat (col n) then Some new_Cell else grid_at (cells s) i j)"
          by blast
        from False True Cons.prems(2)
        have "\<not> (nat (row pos) = nat (row n) \<and> nat (col pos) = nat (col n))"
          using nonneg_eq_iff [of pos n] by (auto simp: IsValid_nonneg)
        with gr have sl: "slot s2 pos = slot s pos" by (auto simp: slot_def)
        from False gc None p
        have "materialize s pos (n # rest) acc = materialize s2 pos rest (acc @ [n])"
          by simp
        with Cons.IH [OF in_rest Cons.prems(2), of s2 "acc @ [n]"] g sl show ?thesis by simp
      qed
    qed
  qed
qed

lemma self_reference_is_refused:
  assumes "IsValid pos" and "Cell_Set parse text new_Cell = Some nc"
    and "pos \<in> set (Cell_GetReferencedCells nc)"
  shows "\<exists>e s'. SetCell parse fuel s pos text = Thrown e s' \<and>
       (e = CircularDependencyException \<or> e = InvalidPositionException) \<and>
       graph s' = graph s \<and> slot s' pos = slot s pos"
proof -
  from materialize_self_reference [OF assms(3,1), of s "[]"] obtain e s' where
    "materialize s pos (Cell_GetReferencedCells nc) [] = Thrown e s'"
    "e = CircularDependencyException \<or> e = InvalidPositionException"
    "graph s' = graph s" "slot s' pos = slot s pos" by blast
  with assms(1,2) show ?thesis by (simp add: SetCell_def Let_def)
qed

end
